theory Spec2Isabelle
  imports Complex_Main
begin

section \<open>Data model\<close>

text \<open>
  The table \<open>transactions\<close> of \<open>server.js\<close> (lines 30-40). A \<open>DATETIME\<close> is its
  calendar fields; \<open>DECIMAL(10,2)\<close> is an exact fixed-point number, kept here as the
  integer number of hundredths (a price of 100.50 is \<open>10050\<close>).
\<close>

record datetime =
  dt_year :: nat
  dt_month :: nat
  dt_day :: nat
  dt_hour :: nat
  dt_minute :: nat
  dt_second :: nat

record transaction =
  tid :: int
  title :: string
  description :: string
  price :: int
  category :: string
  image :: string
  sold :: bool
  date_of_sale :: datetime

text \<open>
  The connection pool and the table behind it. A query on a store that is not
  \<open>reachable\<close> throws; the handlers catch that and answer 500. A \<open>SELECT\<close> without
  \<open>ORDER BY\<close> returns the selected rows in the order of the list.
\<close>

record db =
  reachable :: bool
  rows :: "transaction list"

text \<open>What a handler does to the outside world, in order: SQL statements and HTTP requests.\<close>

datatype sql =
    SelectTransactions
  | CountTransactions
  | SumSoldPrice
  | CountSold
  | CountNotSold
  | BarChartQuery
  | PieChartQuery

datatype effect = Query sql | Get string

datatype 'a response = Status200 'a | Status400 string | Status500 string

section \<open>Month validation\<close>

definition months :: "string list" where
  "months =
    [''January'', ''February'', ''March'', ''April'', ''May'', ''June'',
     ''July'', ''August'', ''September'', ''October'', ''November'', ''December'']"

text \<open>\<open>Array.prototype.includes\<close> and \<open>indexOf\<close> (-1 when absent).\<close>

fun js_includes :: "'a list \<Rightarrow> 'a \<Rightarrow> bool" where
  "js_includes [] x = False"
| "js_includes (y # ys) x = (y = x \<or> js_includes ys x)"

fun indexOf :: "'a list \<Rightarrow> 'a \<Rightarrow> int" where
  "indexOf [] x = - 1"
| "indexOf (y # ys) x =
     (if y = x then 0 else (let i = indexOf ys x in if i < 0 then - 1 else i + 1))"

text \<open>
  \<open>!month || !months.includes(month)\<close>: the parameter is absent (\<open>None\<close>), the empty
  string (falsy), or not in the list.
\<close>

definition invalid_month :: "string option \<Rightarrow> bool" where
  "invalid_month month =
     (case month of None \<Rightarrow> True | Some m \<Rightarrow> m = [] \<or> \<not> js_includes months m)"

definition monthNum :: "string option \<Rightarrow> int" where
  "monthNum month = (case month of None \<Rightarrow> 0 | Some m \<Rightarrow> indexOf months m + 1)"

text \<open>\<open>WHERE MONTH(date_of_sale) = ?\<close>\<close>

definition where_month :: "int \<Rightarrow> transaction list \<Rightarrow> transaction list" where
  "where_month n rs = filter (\<lambda>r. int (dt_month (date_of_sale r)) = n) rs"

section \<open>Strings: trim, collation, LIKE, CAST\<close>

text \<open>
  Strings are lists of 8-bit characters. \<open>String.prototype.trim\<close> removes white space
  at both ends: tab, line feed, vertical tab, form feed, carriage return, space and
  no-break space in this range.
\<close>

definition is_space :: "char \<Rightarrow> bool" where
  "is_space c = ((of_char c :: nat) \<in> {9, 10, 11, 12, 13, 32, 160})"

definition trim :: "string \<Rightarrow> string" where
  "trim s = rev (dropWhile is_space (rev (dropWhile is_space s)))"

text \<open>
  The columns are declared without a collation, so comparisons use the server's default,
  which is case-insensitive; on the letters A-Z that is equality after lower-casing.
\<close>

definition lower_char :: "char \<Rightarrow> char" where
  "lower_char c =
     (let n = (of_char c :: nat) in if 65 \<le> n \<and> n \<le> 90 then char_of (n + 32) else c)"

definition coll_eq_char :: "char \<Rightarrow> char \<Rightarrow> bool" where
  "coll_eq_char a b = (lower_char a = lower_char b)"

definition coll_eq :: "string \<Rightarrow> string \<Rightarrow> bool" where
  "coll_eq a b = (map lower_char a = map lower_char b)"

text \<open>
  \<open>text LIKE pattern\<close>: \<open>%\<close> matches any run of characters, \<open>_\<close> any one character,
  and a backslash takes the next pattern character literally (a backslash that ends the
  pattern stands for itself).
\<close>

fun like :: "string \<Rightarrow> string \<Rightarrow> bool" where
  "like [] t = (t = [])"
| "like (p # ps) [] = (p = CHR ''%'' \<and> like ps [])"
| "like (p # ps) (c # cs) =
     (if p = CHR ''%'' then like ps (c # cs) \<or> like (p # ps) cs
      else if p = CHR ''_'' then like ps cs
      else if p = CHR 0x5C then
        (case ps of
           [] \<Rightarrow> coll_eq_char p c \<and> like [] cs
         | q # qs \<Rightarrow> coll_eq_char q c \<and> like qs cs)
      else coll_eq_char p c \<and> like ps cs)"

text \<open>\<open>CAST(price AS CHAR)\<close> of a \<open>DECIMAL(10,2)\<close>: sign, integer part, point, two digits.\<close>

definition digit_char :: "int \<Rightarrow> char" where
  "digit_char d = char_of (48 + d)"

function digits :: "int \<Rightarrow> string" where
  "digits n = (if n < 10 then [digit_char n] else digits (n div 10) @ [digit_char (n mod 10)])"
  by pat_completeness auto
termination
  by (relation "measure nat") auto

definition cast_char :: "int \<Rightarrow> string" where
  "cast_char p =
     (let a = \<bar>p\<bar> in
        (if p < 0 then ''-'' else []) @ digits (a div 100) @ ''.'' @
        [digit_char (a mod 100 div 10), digit_char (a mod 10)])"

section \<open>JavaScript numbers\<close>

text \<open>
  A JavaScript number is a binary64 floating-point value. It is kept here as the
  rational it denotes; \<open>to_double\<close> rounds a rational to the nearest value with a 53-bit
  significand, ties to the even significand, as string-to-number conversion and
  arithmetic do (\<open>Number(s)\<close>, \<open>parseFloat(s)\<close>, \<open>a - b\<close>, \<open>a * b\<close>, \<open>a / b\<close>). The exponent
  is not limited in \<open>to_double\<close>; \<open>js_finite\<close> tells the rationals that round to a finite
  number (a larger magnitude rounds to \<open>Infinity\<close> or \<open>-Infinity\<close>), and the magnitudes
  that arise here from a \<open>DECIMAL\<close> sum, a count or a quotient of counts are far from
  underflow.
\<close>

function ilog2 :: "int \<Rightarrow> int" where
  "ilog2 n = (if n < 2 then 0 else 1 + ilog2 (n div 2))"
  by pat_completeness auto
termination
  by (relation "measure nat") auto

text \<open>For \<open>x > 0\<close>, the exponent \<open>e\<close> with \<open>2 powi e \<le> x < 2 powi (e + 1)\<close>.\<close>

definition floor_log2 :: "rat \<Rightarrow> int" where
  "floor_log2 x =
     (let (n, d) = quotient_of x; g = ilog2 n - ilog2 d
      in if 2 powi g \<le> x then g else g - 1)"

definition round_even :: "rat \<Rightarrow> int" where
  "round_even y =
     (let f = \<lfloor>y\<rfloor>; r = y - of_int f
      in if r < 1 / 2 then f else if 1 / 2 < r then f + 1 else if even f then f else f + 1)"

definition to_double :: "rat \<Rightarrow> rat" where
  "to_double x =
     (if x = 0 then 0
      else let q = 2 powi (floor_log2 \<bar>x\<bar> - 52)
           in sgn x * of_int (round_even (\<bar>x\<bar> / q)) * q)"

definition js_finite :: "rat \<Rightarrow> bool" where
  "js_finite x = (\<bar>x\<bar> < of_int (2 ^ 1024 - 2 ^ 970))"

text \<open>
  The decimal digits that \<open>String(v)\<close> (a template literal) writes for an integer-valued
  number \<open>0 \<le> v < 10^21\<close>, as the integer they denote: the digit string with the fewest
  significant digits that converts back to \<open>v\<close>, the closest to \<open>v\<close> when there are two,
  zero-padded to the length of \<open>v\<close>. \<open>shortest_from v j\<close> tries the multiples of
  \<open>10 ^ j\<close> next to \<open>v\<close>, for \<open>j\<close> counting down.
\<close>

function ndigits :: "int \<Rightarrow> nat" where
  "ndigits n = (if n < 10 then 1 else Suc (ndigits (n div 10)))"
  by pat_completeness auto
termination
  by (relation "measure nat") auto

definition round_trips :: "int \<Rightarrow> int \<Rightarrow> bool" where
  "round_trips v c = (to_double (of_int c) = of_int v)"

fun shortest_from :: "int \<Rightarrow> nat \<Rightarrow> int" where
  "shortest_from v 0 = v"
| "shortest_from v (Suc j) =
     (let u = 10 ^ Suc j; lo = (v div u) * u; hi = lo + u
      in if round_trips v lo \<and> round_trips v hi then
           (if v - lo < hi - v then lo
            else if hi - v < v - lo then hi
            else if even (v div u) then lo else hi)
         else if round_trips v lo then lo
         else if round_trips v hi then hi
         else shortest_from v j)"

definition number_text :: "int \<Rightarrow> int" where
  "number_text v = shortest_from v (ndigits v - 1)"

section \<open>GET /api/transactions\<close>

text \<open>
  The query string of the request. \<open>page\<close> and \<open>perPage\<close> arrive as decimal strings;
  \<open>Some n\<close> is the string that writes the integer \<open>n\<close> (so \<open>Some 0\<close> is the truthy
  string \<open>"0"\<close>). \<open>q_perPage = None\<close> is a \<open>perPage\<close> that is absent or empty (both
  falsy); \<open>q_page = None\<close> is an absent \<open>page\<close>, which defaults to 1; \<open>q_search = None\<close>
  is an absent \<open>search\<close>, which defaults to the empty string.
\<close>

record list_query =
  q_month :: "string option"
  q_search :: "string option"
  q_page :: "int option"
  q_perPage :: "int option"

text \<open>
  JavaScript numbers that a response can hold here, as the handler passes them to
  \<open>res.send\<close> (which writes \<open>Infinity\<close> as \<open>null\<close>).
\<close>

datatype jsnum = Fin rat | Infinity

record list_body =
  transactions :: "transaction list"
  total :: nat
  page :: rat
  perPage :: rat
  totalPages :: jsnum

definition searchParam :: "string \<Rightarrow> string" where
  "searchParam search = ''%'' @ search @ ''%''"

text \<open>\<open>title LIKE ? OR description LIKE ? OR CAST(price AS CHAR) LIKE ?\<close>\<close>

definition search_clause :: "string \<Rightarrow> transaction \<Rightarrow> bool" where
  "search_clause pat r =
     (like pat (title r) \<or> like pat (description r) \<or> like pat (cast_char (price r)))"

text \<open>The \<open>WHERE\<close> clause shared by \<open>query\<close> and \<open>countQuery\<close>.\<close>

definition list_where :: "int \<Rightarrow> string \<Rightarrow> transaction list \<Rightarrow> transaction list" where
  "list_where n search rs =
     (if trim search \<noteq> [] then filter (search_clause (searchParam search)) (where_month n rs)
      else where_month n rs)"

text \<open>The defaults of \<open>const { month, search = '', page = 1, perPage } = req.query\<close>.\<close>

definition search_of :: "list_query \<Rightarrow> string" where
  "search_of q = (case q_search q of None \<Rightarrow> [] | Some s \<Rightarrow> s)"

text \<open>
  \<open>page\<close> as a number: what \<open>Number(page)\<close> and the operand of \<open>page - 1\<close> are, for a
  \<open>page\<close> that does not overflow.
\<close>

definition page_of :: "list_query \<Rightarrow> rat" where
  "page_of q = (case q_page q of None \<Rightarrow> 1 | Some p \<Rightarrow> to_double (of_int p))"

text \<open>
  \<open>(page - 1) * perPage\<close>, each operation rounded. \<open>None\<close> is an offset that is not a
  finite number: \<open>page\<close>, \<open>perPage\<close> or the product overflows, and the offset is
  \<open>Infinity\<close>, \<open>-Infinity\<close> or \<open>NaN\<close>.
\<close>

definition offset_of :: "list_query \<Rightarrow> int \<Rightarrow> rat option" where
  "offset_of q pp =
     (let x = to_double (page_of q - 1) * to_double (of_int pp)
      in if js_finite (case q_page q of None \<Rightarrow> 1 | Some p \<Rightarrow> of_int p) \<and>
            js_finite (of_int pp) \<and> js_finite x
         then Some (to_double x) else None)"

text \<open>
  \<open>LIMIT ${perPage} OFFSET ${offset}\<close> is text pasted into the statement: \<open>perPage\<close> as
  the string that was sent, \<open>offset\<close> as \<open>String\<close> writes the number. The server takes
  an unsigned integer below \<open>2 ^ 64\<close> in either place; a minus sign, a larger integer
  the exponent form that \<open>String\<close> uses from \<open>10 ^ 21\<close> on (\<open>1e+21\<close>) and the words
  \<open>Infinity\<close> and \<open>NaN\<close> are syntax errors. \<open>None\<close> is such an error.
\<close>

definition sql_limit :: "int \<Rightarrow> int option" where
  "sql_limit pp = (if pp < 0 \<or> 2 ^ 64 \<le> pp then None else Some pp)"

definition sql_offset :: "rat \<Rightarrow> int option" where
  "sql_offset off =
     (if off < 0 \<or> 10 ^ 21 \<le> off then None
      else let v = number_text \<lfloor>off\<rfloor> in if 2 ^ 64 \<le> v then None else Some v)"

text \<open>The rows that \<open>LIMIT n\<close> and \<open>OFFSET n\<close> let through.\<close>

fun limit_rows :: "int \<Rightarrow> 'a list \<Rightarrow> 'a list" where
  "limit_rows n [] = []"
| "limit_rows n (x # xs) = (if n \<le> 0 then [] else x # limit_rows (n - 1) xs)"

fun offset_rows :: "int \<Rightarrow> 'a list \<Rightarrow> 'a list" where
  "offset_rows n [] = []"
| "offset_rows n (x # xs) = (if n \<le> 0 then x # xs else offset_rows (n - 1) xs)"

text \<open>
  \<open>Math.ceil(total / perPage) || 1\<close>: the quotient is rounded; division by zero gives
  \<open>Infinity\<close>, or \<open>NaN\<close> (falsy) for 0/0; a result of 0 is falsy too.
\<close>

definition total_pages :: "nat \<Rightarrow> int \<Rightarrow> jsnum" where
  "total_pages t pp =
     (let a = to_double (of_nat t); b = to_double (of_int pp)
      in if b = 0 then (if a = 0 then Fin 1 else Infinity)
         else let c = \<lceil>to_double (a / b)\<rceil> in if c = 0 then Fin 1 else Fin (of_int c))"

text \<open>
  The handler. \<open>LIMIT\<close> and \<open>OFFSET\<close> are appended only when \<open>perPage\<close> is truthy; a
  statement with a syntax error throws like an unreachable store. The result is the
  response and the effects performed.
\<close>

definition list_transactions :: "db \<Rightarrow> list_query \<Rightarrow> list_body response \<times> effect list" where
  "list_transactions d q =
     (if invalid_month (q_month q) then (Status400 ''Invalid month'', [])
      else
        let matching = list_where (monthNum (q_month q)) (search_of q) (rows d) in
          (case q_perPage q of
             None \<Rightarrow>
               if \<not> reachable d
               then (Status500 ''Error processing transactions'', [Query SelectTransactions])
               else
                 (Status200 \<lparr>transactions = matching, total = length matching, page = 1,
                    perPage = of_nat (length matching), totalPages = Fin 1\<rparr>,
                  [Query SelectTransactions, Query CountTransactions])
           | Some pp \<Rightarrow>
               (case (sql_limit pp, Option.bind (offset_of q pp) sql_offset) of
                  (Some limit_n, Some offset_n) \<Rightarrow>
                    if \<not> reachable d
                    then (Status500 ''Error processing transactions'',
                          [Query SelectTransactions])
                    else
                      (Status200 \<lparr>transactions = limit_rows limit_n (offset_rows offset_n matching),
                         total = length matching, page = page_of q,
                         perPage = to_double (of_int pp),
                         totalPages = total_pages (length matching) pp\<rparr>,
                       [Query SelectTransactions, Query CountTransactions])
                | _ \<Rightarrow>
                    (Status500 ''Error processing transactions'',
                     [Query SelectTransactions]))))"

section \<open>GET /api/statistics\<close>

text \<open>
  \<open>SUM\<close> over no rows is \<open>NULL\<close>; otherwise the driver hands the exact decimal sum over
  as a string (here the integer number of hundredths). \<open>parseFloat(x) || 0\<close> turns
  \<open>NULL\<close> (\<open>NaN\<close>) and 0 into 0, and a decimal string into the number nearest to it.
  \<open>parseInt(x) || 0\<close> keeps a count; a table holds fewer than \<open>2 ^ 53\<close> rows, so counts
  are exact numbers.
\<close>

definition sql_sum :: "int list \<Rightarrow> int option" where
  "sql_sum xs = (if xs = [] then None else Some (sum_list xs))"

definition parseFloat_or_0 :: "int option \<Rightarrow> rat" where
  "parseFloat_or_0 x =
     (case x of
        None \<Rightarrow> 0
      | Some v \<Rightarrow> let y = to_double (of_int v / 100) in if y = 0 then 0 else y)"

definition parseInt_or_0 :: "nat \<Rightarrow> nat" where
  "parseInt_or_0 c = (if c = 0 then 0 else c)"

record stats =
  totalSale :: rat
  soldItems :: nat
  notSoldItems :: nat

definition statistics :: "db \<Rightarrow> string option \<Rightarrow> stats response \<times> effect list" where
  "statistics d month =
     (if invalid_month month then (Status400 ''Invalid month'', [])
      else
        let n = monthNum month in
          if \<not> reachable d then (Status500 ''Error calculating statistics'', [Query SumSoldPrice])
          else
            (Status200
               \<lparr>totalSale =
                  parseFloat_or_0 (sql_sum (map price (filter sold (where_month n (rows d))))),
                soldItems = parseInt_or_0 (length (filter sold (where_month n (rows d)))),
                notSoldItems =
                  parseInt_or_0 (length (filter (\<lambda>r. \<not> sold r) (where_month n (rows d))))\<rparr>,
             [Query SumSoldPrice, Query CountSold, Query CountNotSold]))"

section \<open>GROUP BY and ORDER BY\<close>

text \<open>
  \<open>SELECT k AS _id, COUNT(*) AS count ... GROUP BY k\<close> over the keys of the selected
  rows: one output row per group of keys equal under the collation, labelled by the
  group's first key, in order of first appearance.
\<close>

function group_count :: "string list \<Rightarrow> (string \<times> nat) list" where
  "group_count [] = []"
| "group_count (k # ks) =
     (k, Suc (length (filter (coll_eq k) ks))) # group_count (filter (\<lambda>x. \<not> coll_eq k x) ks)"
  by pat_completeness auto
termination
  by (relation "measure length") (auto simp: less_Suc_eq_le)

text \<open>\<open>ORDER BY _id\<close>: ascending by the collation's order on strings (insertion sort).\<close>

fun coll_le :: "string \<Rightarrow> string \<Rightarrow> bool" where
  "coll_le [] b = True"
| "coll_le (x # xs) [] = False"
| "coll_le (x # xs) (y # ys) =
     ((of_char (lower_char x) :: nat) < of_char (lower_char y) \<or>
      (lower_char x = lower_char y \<and> coll_le xs ys))"

fun insert_by_id :: "string \<times> nat \<Rightarrow> (string \<times> nat) list \<Rightarrow> (string \<times> nat) list" where
  "insert_by_id p [] = [p]"
| "insert_by_id p (q # qs) = (if coll_le (fst p) (fst q) then p # q # qs else q # insert_by_id p qs)"

definition order_by_id :: "(string \<times> nat) list \<Rightarrow> (string \<times> nat) list" where
  "order_by_id ps = foldr insert_by_id ps []"

section \<open>GET /api/barchart\<close>

text \<open>
  The \<open>CASE\<close> expression. \<open>price BETWEEN a AND b\<close> is \<open>a \<le> price \<and> price \<le> b\<close> on
  exact decimals; prices are in hundredths, so the bound 100 is \<open>10000\<close>.
\<close>

definition between :: "int \<Rightarrow> int \<Rightarrow> int \<Rightarrow> bool" where
  "between p a b = (a * 100 \<le> p \<and> p \<le> b * 100)"

definition price_range :: "int \<Rightarrow> string" where
  "price_range p =
     (if between p 0 100 then ''0-100''
      else if between p 101 200 then ''101-200''
      else if between p 201 300 then ''201-300''
      else if between p 301 400 then ''301-400''
      else if between p 401 500 then ''401-500''
      else if between p 501 600 then ''501-600''
      else if between p 601 700 then ''601-700''
      else if between p 701 800 then ''701-800''
      else if between p 801 900 then ''801-900''
      else ''901-above'')"

definition barchart :: "db \<Rightarrow> string option \<Rightarrow> (string \<times> nat) list response \<times> effect list" where
  "barchart d month =
     (if invalid_month month then (Status400 ''Invalid month'', [])
      else
        let n = monthNum month in
          if \<not> reachable d
          then (Status500 ''Error generating bar chart data'', [Query BarChartQuery])
          else
            (Status200
               (order_by_id (group_count (map (\<lambda>r. price_range (price r)) (where_month n (rows d))))),
             [Query BarChartQuery]))"

section \<open>GET /api/piechart\<close>

definition piechart :: "db \<Rightarrow> string option \<Rightarrow> (string \<times> nat) list response \<times> effect list" where
  "piechart d month =
     (if invalid_month month then (Status400 ''Invalid month'', [])
      else
        let n = monthNum month in
          if \<not> reachable d
          then (Status500 ''Error generating pie chart data'', [Query PieChartQuery])
          else
            (Status200 (group_count (map category (where_month n (rows d)))),
             [Query PieChartQuery]))"

section \<open>GET /api/combined\<close>

text \<open>
  The handler asks three fixed URLs of a deployed server with \<open>axios.get\<close>, all three
  at once (\<open>Promise.all\<close>). The network and that server are the parameter \<open>remote\<close>.
  \<open>axios.get\<close> throws on a network failure and on a status outside 200-299.
\<close>

datatype data = StatsData stats | ChartData "(string \<times> nat) list" | ErrorData string

datatype http_result = NetworkError | HttpResponse nat data

record combined_body =
  cb_statistics :: data
  cb_barchart :: data
  cb_piechart :: data

definition api_url :: "string \<Rightarrow> string \<Rightarrow> string" where
  "api_url name m = ''https://roxiler-backend-kpxn.onrender.com/api/'' @ name @ ''?month='' @ m"

definition axios_get :: "(string \<Rightarrow> http_result) \<Rightarrow> string \<Rightarrow> data option" where
  "axios_get remote url =
     (case remote url of
        NetworkError \<Rightarrow> None
      | HttpResponse st b \<Rightarrow> if 200 \<le> st \<and> st < 300 then Some b else None)"

definition combined ::
  "(string \<Rightarrow> http_result) \<Rightarrow> string option \<Rightarrow> combined_body response \<times> effect list" where
  "combined remote month =
     (if invalid_month month then (Status400 ''Invalid month'', [])
      else
        let m = (case month of None \<Rightarrow> [] | Some s \<Rightarrow> s);
            urls = [api_url ''statistics'' m, api_url ''barchart'' m, api_url ''piechart'' m]
        in
          (case (axios_get remote (urls ! 0), axios_get remote (urls ! 1),
                 axios_get remote (urls ! 2)) of
             (Some s, Some b, Some p) \<Rightarrow>
               (Status200 \<lparr>cb_statistics = s, cb_barchart = b, cb_piechart = p\<rparr>, map Get urls)
           | _ \<Rightarrow> (Status500 ''Error fetching combined data'', map Get urls)))"

section \<open>Startup bootstrap\<close>

text \<open>
  An object of the fetched JSON array; a field that is absent (or, for \<open>dateOfSale\<close>,
  not a date) is \<open>None\<close> and goes to the statement as \<open>NULL\<close>.
\<close>

record item =
  i_id :: "int option"
  i_title :: "string option"
  i_description :: "string option"
  i_price :: "int option"
  i_category :: "string option"
  i_image :: "string option"
  i_sold :: "bool option"
  i_dateOfSale :: "datetime option"

text \<open>
  \<open>INSERT INTO transactions ... VALUES (?, ?, ?, ?, ?, ?, ?, ?)\<close>: every column is
  \<open>NOT NULL\<close> and \<open>id\<close> is the primary key, so the statement throws on a \<open>NULL\<close> and on
  an id that the table already holds. Each statement commits on its own.
\<close>

definition to_row :: "item \<Rightarrow> transaction option" where
  "to_row it =
     (case (i_id it, i_title it, i_description it, i_price it) of
        (Some a, Some b, Some c, Some e) \<Rightarrow>
          (case (i_category it, i_image it, i_sold it, i_dateOfSale it) of
             (Some f, Some g, Some h, Some k) \<Rightarrow>
               Some \<lparr>tid = a, title = b, description = c, price = e, category = f, image = g,
                      sold = h, date_of_sale = k\<rparr>
           | _ \<Rightarrow> None)
      | _ \<Rightarrow> None)"

definition insert_row :: "transaction list \<Rightarrow> item \<Rightarrow> transaction list option" where
  "insert_row rs it =
     (case to_row it of
        None \<Rightarrow> None
      | Some r \<Rightarrow> if tid r \<in> set (map tid rs) then None else Some (rs @ [r]))"

text \<open>The \<open>for ... of\<close> loop: the table afterwards, and whether a statement threw.\<close>

fun insert_all :: "transaction list \<Rightarrow> item list \<Rightarrow> transaction list \<times> bool" where
  "insert_all rs [] = (rs, False)"
| "insert_all rs (it # its) =
     (case insert_row rs it of None \<Rightarrow> (rs, True) | Some rs' \<Rightarrow> insert_all rs' its)"

datatype log_line =
    Connected
  | TableReady
  | NoDataSeeding
  | Seeded nat
  | AlreadyContains nat
  | SeedingError

text \<open>
  The \<open>async\<close> function run at load time. \<open>fetched\<close> is what \<open>axios.get\<close> of the
  dataset gives when it is asked: \<open>None\<close> when it throws. Whatever throws inside \<open>try\<close>
  is caught and logged, so \<open>threw\<close>, an exception leaving the function, stays \<open>False\<close>;
  \<open>app.listen\<close> is called by the module itself.
\<close>

record startup =
  store :: db
  log :: "log_line list"
  threw :: bool
  listening :: bool

definition bootstrap :: "db \<Rightarrow> item list option \<Rightarrow> startup" where
  "bootstrap d fetched =
     (if \<not> reachable d
      then \<lparr>store = d, log = [SeedingError], threw = False, listening = True\<rparr>
      else if length (rows d) = 0 then
        (case fetched of
           None \<Rightarrow>
             \<lparr>store = d, log = [Connected, TableReady, NoDataSeeding, SeedingError],
              threw = False, listening = True\<rparr>
         | Some seedData \<Rightarrow>
             (case insert_all (rows d) seedData of
                (rs, True) \<Rightarrow>
                  \<lparr>store = d\<lparr>rows := rs\<rparr>,
                   log = [Connected, TableReady, NoDataSeeding, SeedingError],
                   threw = False, listening = True\<rparr>
              | (rs, False) \<Rightarrow>
                  \<lparr>store = d\<lparr>rows := rs\<rparr>,
                   log = [Connected, TableReady, NoDataSeeding, Seeded (length seedData)],
                   threw = False, listening = True\<rparr>))
      else
        \<lparr>store = d, log = [Connected, TableReady, AlreadyContains (length (rows d))],
         threw = False, listening = True\<rparr>)"

section \<open>Notions used to state the properties\<close>

text \<open>
  The binary64 values, exponent range aside: an integer significand of at most 53 bits
  times a power of two.
\<close>

definition is_double :: "rat \<Rightarrow> bool" where
  "is_double y = (\<exists>m e. \<bar>m\<bar> < 2 ^ 53 \<and> y = of_int m * 2 powi e)"

text \<open>The characters that \<open>LIKE\<close> does not take literally.\<close>

definition is_meta :: "char \<Rightarrow> bool" where
  "is_meta c = (c = CHR ''%'' \<or> c = CHR ''_'' \<or> c = CHR 0x5C)"

text \<open>
  \<open>s\<close> occurs in \<open>t\<close> as a substring, up to the case of letters: \<open>s\<close> starts \<open>t\<close>, or
  occurs further in.
\<close>

fun prefix_ci :: "string \<Rightarrow> string \<Rightarrow> bool" where
  "prefix_ci [] t = True"
| "prefix_ci (x # xs) [] = False"
| "prefix_ci (x # xs) (c # cs) = (lower_char x = lower_char c \<and> prefix_ci xs cs)"

fun contains_ci :: "string \<Rightarrow> string \<Rightarrow> bool" where
  "contains_ci s [] = (s = [])"
| "contains_ci s (c # cs) = (prefix_ci s (c # cs) \<or> contains_ci s cs)"

text \<open>
  What \<open>res.status(...).send(...)\<close> puts on the wire for a handler's response, with
  \<open>wrap\<close> the JSON form of a 200 body.
\<close>

definition http_of :: "('a \<Rightarrow> data) \<Rightarrow> 'a response \<Rightarrow> http_result" where
  "http_of wrap r =
     (case r of
        Status200 x \<Rightarrow> HttpResponse 200 (wrap x)
      | Status400 e \<Rightarrow> HttpResponse 400 (ErrorData e)
      | Status500 e \<Rightarrow> HttpResponse 500 (ErrorData e))"

text \<open>
  The specification's reading of the combined operation: statistics, bar chart and pie
  chart called in process on the store \<open>d\<close>, their results put side by side.
\<close>

definition combined_spec :: "db \<Rightarrow> string option \<Rightarrow> combined_body response" where
  "combined_spec d month =
     (if invalid_month month then Status400 ''Invalid month''
      else
        (case (fst (statistics d month), fst (barchart d month), fst (piechart d month)) of
           (Status200 s, Status200 b, Status200 p) \<Rightarrow>
             Status200 \<lparr>cb_statistics = StatsData s, cb_barchart = ChartData b,
                        cb_piechart = ChartData p\<rparr>
         | _ \<Rightarrow> Status500 ''Error fetching combined data''))"

section \<open>Example data\<close>

definition ex_date :: "nat \<Rightarrow> nat \<Rightarrow> nat \<Rightarrow> datetime" where
  "ex_date y m dd =
     \<lparr>dt_year = y, dt_month = m, dt_day = dd, dt_hour = 0, dt_minute = 0, dt_second = 0\<rparr>"

definition ex_row :: "int \<Rightarrow> string \<Rightarrow> int \<Rightarrow> string \<Rightarrow> bool \<Rightarrow> datetime \<Rightarrow> transaction" where
  "ex_row i t p c s dt =
     \<lparr>tid = i, title = t, description = ''item'', price = p, category = c,
      image = ''img.png'', sold = s, date_of_sale = dt\<rparr>"

definition ex_rows :: "transaction list" where
  "ex_rows =
     [ex_row 1 ''Blue x shirt'' 5000 ''A'' True (ex_date 2022 3 5),
      ex_row 2 ''Box'' 15000 ''B'' False (ex_date 2023 3 20),
      ex_row 3 ''Lamp'' 95000 ''A'' True (ex_date 2022 4 1)]"

definition ex_db :: db where
  "ex_db = \<lparr>reachable = True, rows = ex_rows\<rparr>"


text \<open>
  A store of 900720 March records, each sold and with a price that fits
  \<open>DECIMAL(10,2)\<close>, whose prices add up to 90071992547409.93.
\<close>

definition ex_big_rows :: "transaction list" where
  "ex_big_rows =
     map (\<lambda>i. ex_row (int i) ''Pen'' 9999999999 ''A'' True (ex_date 2022 3 5)) [0..<900719] @
     [ex_row 900719 ''Pen'' 9255641712 ''A'' True (ex_date 2022 3 5)]"

definition ex_item :: "int \<Rightarrow> item" where
  "ex_item i =
     \<lparr>i_id = Some i, i_title = Some ''Pen'', i_description = Some ''item'',
      i_price = Some 1000, i_category = Some ''A'', i_image = Some ''img.png'',
      i_sold = Some True, i_dateOfSale = Some (ex_date 2022 3 5)\<rparr>"

text \<open>
  A deployment that answers the three URLs as this program's handlers do on the store
  \<open>d\<close>, and 404 elsewhere.
\<close>

definition ex_remote :: "db \<Rightarrow> string \<Rightarrow> http_result" where
  "ex_remote d url =
     (case find (\<lambda>m. url = api_url ''statistics'' m) months of
        Some m \<Rightarrow> http_of StatsData (fst (statistics d (Some m)))
      | None \<Rightarrow>
          (case find (\<lambda>m. url = api_url ''barchart'' m) months of
             Some m \<Rightarrow> http_of ChartData (fst (barchart d (Some m)))
           | None \<Rightarrow>
               (case find (\<lambda>m. url = api_url ''piechart'' m) months of
                  Some m \<Rightarrow> http_of ChartData (fst (piechart d (Some m)))
                | None \<Rightarrow> HttpResponse 404 (ErrorData ''Not found''))))"

section \<open>Rounding to a JavaScript number\<close>

declare ilog2.simps [simp del]

lemma ilog2_nonneg: "0 \<le> ilog2 n"
  by (induction n rule: ilog2.induct) (subst ilog2.simps, simp)

lemma ilog2_bounds: "1 \<le> n \<Longrightarrow> 2 ^ nat (ilog2 n) \<le> n \<and> n < 2 * 2 ^ nat (ilog2 n)"
proof (induction n rule: ilog2.induct)
  case (1 n)
  show ?case
  proof (cases "n < 2")
    case True
    with "1.prems" have "n = 1" by simp
    then show ?thesis by (subst (1 2) ilog2.simps) simp
  next
    case False
    then have h: "1 \<le> n div 2" by simp
    from "1.IH" [OF False h] have ih: "2 ^ nat (ilog2 (n div 2)) \<le> n div 2"
      "n div 2 < 2 * 2 ^ nat (ilog2 (n div 2))" by simp_all
    have e: "ilog2 n = 1 + ilog2 (n div 2)" using False by (subst ilog2.simps) simp
    have p: "(2::int) ^ nat (1 + ilog2 (n div 2)) = 2 * 2 ^ nat (ilog2 (n div 2))"
      using ilog2_nonneg [of "n div 2"] by (simp add: nat_add_distrib)
    from ih show ?thesis unfolding e p by linarith
  qed
qed


lemma powi_Suc: "(2::rat) powi (g + 1) = 2 * 2 powi g"
  by (simp add: power_int_add)

lemma powi_pred: "(2::rat) powi (g - 1) = 2 powi g / 2"
  by (simp add: power_int_diff)


lemma floor_log2_bounds:
  assumes "0 < x"
  shows "2 powi (floor_log2 x) \<le> x \<and> x < 2 powi (floor_log2 x + 1)"
proof -
  obtain n d where qd: "quotient_of x = (n, d)" by (cases "quotient_of x")
  then have d: "0 < d" and x: "x = of_int n / of_int d"
    by (simp_all add: quotient_of_denom_pos quotient_of_div)
  with assms have n: "0 < n" by (simp add: zero_less_divide_iff)
  define a b where "a = ilog2 n" and "b = ilog2 d"
  define g where "g = a - b"
  have an: "2 ^ nat a \<le> n" "n < 2 * 2 ^ nat a"
    using ilog2_bounds [of n] n by (simp_all add: a_def)
  have bd: "2 ^ nat b \<le> d" "d < 2 * 2 ^ nat b"
    using ilog2_bounds [of d] d by (simp_all add: b_def)
  have a0: "0 \<le> a" and b0: "0 \<le> b" by (simp_all add: a_def b_def ilog2_nonneg)
  have pa: "(2::rat) powi a = 2 ^ nat a" and pb: "(2::rat) powi b = 2 ^ nat b"
    using a0 b0 by (simp_all add: power_int_def)
  have "(2::rat) powi g = 2 powi a / 2 powi b"
    unfolding g_def by (rule power_int_diff) simp
  then have pg: "(2::rat) powi g = 2 ^ nat a / 2 ^ nat b"
    by (simp only: pa pb)
  have rn: "(2::rat) ^ nat a \<le> of_int n" "(of_int n :: rat) < 2 * 2 ^ nat a"
  proof -
    have "(of_int (2 ^ nat a) :: rat) \<le> of_int n" using an(1) by (simp only: of_int_le_iff)
    then show "(2::rat) ^ nat a \<le> of_int n" by simp
    have "(of_int n :: rat) < of_int (2 * 2 ^ nat a)" using an(2) by (simp only: of_int_less_iff)
    then show "(of_int n :: rat) < 2 * 2 ^ nat a" by simp
  qed
  have rd: "(2::rat) ^ nat b \<le> of_int d" "(of_int d :: rat) < 2 * 2 ^ nat b"
  proof -
    have "(of_int (2 ^ nat b) :: rat) \<le> of_int d" using bd(1) by (simp only: of_int_le_iff)
    then show "(2::rat) ^ nat b \<le> of_int d" by simp
    have "(of_int d :: rat) < of_int (2 * 2 ^ nat b)" using bd(2) by (simp only: of_int_less_iff)
    then show "(of_int d :: rat) < 2 * 2 ^ nat b" by simp
  qed
  have dpos: "(0::rat) < of_int d" using d by simp
  have upper: "x < 2 * 2 powi g"
  proof -
    have "x < (2 * 2 ^ nat a) / of_int d"
      unfolding x using rn(2) dpos by (simp add: divide_strict_right_mono)
    also have "\<dots> \<le> (2 * 2 ^ nat a) / 2 ^ nat b"
      using rd(1) dpos by (intro divide_left_mono) simp_all
    finally show ?thesis by (simp add: pg)
  qed
  have lower: "2 powi g / 2 < x"
  proof -
    have "2 powi g / 2 = (2::rat) ^ nat a / (2 * 2 ^ nat b)" by (simp add: pg)
    also have "\<dots> < 2 ^ nat a / of_int d"
      using rd(2) dpos by (intro divide_strict_left_mono) simp_all
    also have "\<dots> \<le> x"
      unfolding x using rn(1) dpos by (simp add: divide_right_mono)
    finally show ?thesis .
  qed
  have fl: "floor_log2 x = (if 2 powi g \<le> x then g else g - 1)"
    by (simp add: floor_log2_def qd g_def a_def b_def)
  show ?thesis
  proof (cases "2 powi g \<le> x")
    case True
    with fl upper show ?thesis by (simp add: powi_Suc)
  next
    case False
    with fl lower show ?thesis by (simp add: powi_pred)
  qed
qed

lemma round_even_cases:
  "round_even y = \<lfloor>y\<rfloor> \<or> round_even y = \<lfloor>y\<rfloor> + 1"
  by (simp add: round_even_def Let_def)

lemma round_even_error: "\<bar>of_int (round_even y) - y\<bar> \<le> 1 / 2"
proof -
  have f: "of_int \<lfloor>y\<rfloor> \<le> y" "y < of_int \<lfloor>y\<rfloor> + 1" by linarith+
  show ?thesis
    using f by (auto simp: round_even_def Let_def abs_le_iff)
qed

lemma round_even_int: "round_even (of_int z) = z"
  by (simp add: round_even_def)

lemma round_even_ge: "of_int z \<le> y \<Longrightarrow> z \<le> round_even y"
proof -
  assume "of_int z \<le> y"
  then have "z \<le> \<lfloor>y\<rfloor>" by (simp add: le_floor_iff)
  with round_even_cases [of y] show ?thesis by auto
qed

lemma round_even_le: "y \<le> of_int z \<Longrightarrow> round_even y \<le> z"
proof (cases "y = of_int z")
  case True
  then show ?thesis by (simp add: round_even_int)
next
  case False
  assume "y \<le> of_int z"
  with False have "y < of_int z" by simp
  then have "\<lfloor>y\<rfloor> < z" by (simp add: floor_less_iff)
  with round_even_cases [of y] show ?thesis by auto
qed


lemma powi_less_imp: "(2::rat) powi e < 2 powi f \<Longrightarrow> e < f"
proof (rule ccontr)
  assume l: "(2::rat) powi e < 2 powi f" and "\<not> e < f"
  then have "f \<le> e" by simp
  then have "(2::rat) powi f \<le> 2 powi e" by (intro power_int_increasing) simp_all
  with l show False by simp
qed

lemma to_double_minus: "to_double (- x) = - to_double x"
  by (simp add: to_double_def Let_def)

lemma to_double_pos:
  assumes "0 < x"
  shows "to_double x =
    of_int (round_even (x / 2 powi (floor_log2 x - 52))) * 2 powi (floor_log2 x - 52)"
  using assms by (simp add: to_double_def Let_def)

lemma to_double_error_pos:
  assumes "0 < x"
  shows "\<bar>to_double x - x\<bar> \<le> 2 powi (floor_log2 x - 53)"
proof -
  define q :: rat where "q = 2 powi (floor_log2 x - 52)"
  define R :: rat where "R = of_int (round_even (x / q))"
  have q: "0 < q" by (simp add: q_def)
  have "\<bar>R - x / q\<bar> \<le> 1 / 2" unfolding R_def by (rule round_even_error)
  then have a: "\<bar>R - x / q\<bar> * q \<le> 1 / 2 * q"
    using q by (intro mult_right_mono) simp_all
  have b: "\<bar>R - x / q\<bar> * q = \<bar>R * q - x\<bar>"
  proof -
    have "\<bar>R - x / q\<bar> * q = \<bar>(R - x / q) * q\<bar>"
      using q by (simp add: abs_mult)
    also have "(R - x / q) * q = R * q - x"
      using q by (simp add: algebra_simps)
    finally show ?thesis .
  qed
  have c: "1 / 2 * q = 2 powi (floor_log2 x - 53)"
  proof -
    have "floor_log2 x - 53 = (floor_log2 x - 52) - 1" by simp
    then show ?thesis unfolding q_def by (simp only: powi_pred)
  qed
  have d: "to_double x = R * q"
    unfolding R_def q_def by (rule to_double_pos [OF assms])
  from a show ?thesis unfolding b c d .
qed

lemma to_double_error: "\<bar>to_double x - x\<bar> \<le> \<bar>x\<bar> * 2 powi (- 53)"
proof -
  have pos: "\<bar>to_double y - y\<bar> \<le> y * 2 powi (- 53)" if "0 < y" for y
  proof -
    have "\<bar>to_double y - y\<bar> \<le> 2 powi (floor_log2 y - 53)"
      by (rule to_double_error_pos [OF that])
    also have "\<dots> = 2 powi (floor_log2 y) * 2 powi (- 53)"
      by (simp add: power_int_diff power_int_minus field_simps)
    also have "\<dots> \<le> y * 2 powi (- 53)"
      using floor_log2_bounds [OF that] by (intro mult_right_mono) simp_all
    finally show ?thesis .
  qed
  consider "x = 0" | "0 < x" | "x < 0" by linarith
  then show ?thesis
  proof cases
    case 1
    then show ?thesis by (simp add: to_double_def)
  next
    case 2
    with pos [of x] show ?thesis by simp
  next
    case 3
    then have "0 < - x" by simp
    from pos [OF this] 3 show ?thesis by (simp add: to_double_minus abs_minus_commute)
  qed
qed



lemma to_double_exact_pos:
  assumes "0 < m" and "m < 2 ^ 53"
  shows "to_double (of_int m * 2 powi s) = of_int m * 2 powi s"
proof -
  define x :: rat where "x = of_int m * 2 powi s"
  have x: "0 < x" using assms(1) by (simp add: x_def)
  define e where "e = floor_log2 x"
  have "2 powi e \<le> x" using floor_log2_bounds [OF x] by (simp add: e_def)
  also have "x < 2 ^ 53 * 2 powi s"
  proof -
    have "(of_int m :: rat) < of_int (2 ^ 53)" using assms(2) by (simp only: of_int_less_iff)
    then show ?thesis unfolding x_def by (intro mult_strict_right_mono) simp_all
  qed
  also have "(2::rat) ^ 53 * 2 powi s = 2 powi (53 + s)"
    by (simp add: power_int_add)
  finally have "e < 53 + s" by (rule powi_less_imp)
  then have t: "0 \<le> s - (e - 52)" by simp
  have "x / 2 powi (e - 52) = of_int m * 2 powi (s - (e - 52))"
    unfolding x_def by (simp add: power_int_diff)
  also have "\<dots> = of_int m * 2 ^ nat (s - (e - 52))"
    using t by (simp add: power_int_def)
  also have "\<dots> = of_int (m * 2 ^ nat (s - (e - 52)))" by simp
  finally have d: "x / 2 powi (e - 52) = of_int (m * 2 ^ nat (s - (e - 52)))" .
  have "to_double x = of_int (round_even (x / 2 powi (e - 52))) * 2 powi (e - 52)"
    using to_double_pos [OF x] by (simp add: e_def)
  also have "\<dots> = x / 2 powi (e - 52) * 2 powi (e - 52)"
    unfolding d round_even_int ..
  also have "\<dots> = x" by simp
  finally show ?thesis by (simp add: x_def)
qed

lemma to_double_exact:
  assumes "\<bar>m\<bar> < 2 ^ 53"
  shows "to_double (of_int m * 2 powi s) = of_int m * 2 powi s"
proof -
  consider "m = 0" | "0 < m" | "m < 0" by linarith
  then show ?thesis
  proof cases
    case 1
    then show ?thesis by (simp add: to_double_def)
  next
    case 2
    with assms show ?thesis by (intro to_double_exact_pos) simp_all
  next
    case 3
    with assms have "0 < - m" "- m < 2 ^ 53" by simp_all
    from to_double_exact_pos [OF this, of s] show ?thesis
      using to_double_minus [of "of_int m * 2 powi s"] by simp
  qed
qed



lemma round_even_nearest: "\<bar>of_int (round_even y) - y\<bar> \<le> \<bar>of_int j - y\<bar>"
proof -
  define f where "f = \<lfloor>y\<rfloor>"
  have f: "of_int f \<le> y" "y < of_int f + 1" unfolding f_def by linarith+
  consider "j \<le> f" | "f + 1 \<le> j" by linarith
  then show ?thesis
  proof cases
    case 1
    then have "(of_int j :: rat) \<le> of_int f" by simp
    with f show ?thesis
      by (auto simp: round_even_def Let_def f_def [symmetric])
  next
    case 2
    then have "(of_int f :: rat) + 1 \<le> of_int j" by (metis of_int_1 of_int_add of_int_le_iff)
    with f show ?thesis
      by (auto simp: round_even_def Let_def f_def [symmetric])
  qed
qed

lemma to_double_nearest_multiple:
  assumes "0 < x"
  shows "\<bar>to_double x - x\<bar> \<le> \<bar>of_int j * 2 powi (floor_log2 x - 52) - x\<bar>"
proof -
  define q :: rat where "q = 2 powi (floor_log2 x - 52)"
  define R :: rat where "R = of_int (round_even (x / q))"
  have q: "0 < q" by (simp add: q_def)
  have "\<bar>R - x / q\<bar> \<le> \<bar>of_int j - x / q\<bar>" unfolding R_def by (rule round_even_nearest)
  then have a: "\<bar>R - x / q\<bar> * q \<le> \<bar>of_int j - x / q\<bar> * q"
    using q by (intro mult_right_mono) simp_all
  have b: "\<bar>z - x / q\<bar> * q = \<bar>z * q - x\<bar>" for z
  proof -
    have "\<bar>z - x / q\<bar> * q = \<bar>(z - x / q) * q\<bar>"
      using q by (simp add: abs_mult)
    also have "(z - x / q) * q = z * q - x"
      using q by (simp add: algebra_simps)
    finally show ?thesis .
  qed
  have d: "to_double x = R * q"
    unfolding R_def q_def by (rule to_double_pos [OF assms])
  from a have "\<bar>R * q - x\<bar> \<le> \<bar>of_int j * q - x\<bar>" unfolding b .
  then show ?thesis unfolding d q_def .
qed

lemma to_double_is_double: "is_double (to_double x)"
proof -
  have pos: "is_double (to_double y)" if y: "0 < y" for y
  proof -
    define e where "e = floor_log2 y"
    define q :: rat where "q = 2 powi (e - 52)"
    define R where "R = round_even (y / q)"
    have q: "0 < q" by (simp add: q_def)
    have b: "2 powi e \<le> y" "y < 2 powi (e + 1)"
      using floor_log2_bounds [OF y] by (simp_all add: e_def)
    have "y / q < 2 powi (e + 1) / q" using b(2) q by (simp add: divide_strict_right_mono)
    also have "2 powi (e + 1) / q = 2 ^ 53"
      unfolding q_def by (simp flip: power_int_diff)
    finally have "y / q \<le> of_int (2 ^ 53)" by simp
    then have up: "R \<le> 2 ^ 53" unfolding R_def by (rule round_even_le)
    have "0 \<le> y / q" using y q by simp
    then have "(of_int 0 :: rat) \<le> y / q" by simp
    then have lo: "0 \<le> R" unfolding R_def by (rule round_even_ge)
    have d: "to_double y = of_int R * q"
      unfolding R_def q_def e_def by (rule to_double_pos [OF y])
    show ?thesis
    proof (cases "R = 2 ^ 53")
      case True
      have "to_double y = of_int (2 ^ 52) * 2 powi (e - 51)"
        unfolding d True q_def by (simp add: power_int_diff)
      moreover have "\<bar>2 ^ 52 :: int\<bar> < 2 ^ 53" by simp
      ultimately show ?thesis unfolding is_double_def by blast
    next
      case False
      with up lo have "\<bar>R\<bar> < 2 ^ 53" by simp
      with d show ?thesis unfolding is_double_def q_def by blast
    qed
  qed
  have neg: "is_double (- z)" if "is_double z" for z
  proof -
    from that obtain m e where "\<bar>m\<bar> < 2 ^ 53" "z = of_int m * 2 powi e"
      unfolding is_double_def by blast
    then have "\<bar>- m\<bar> < 2 ^ 53" "- z = of_int (- m) * 2 powi e" by simp_all
    then show ?thesis unfolding is_double_def by blast
  qed
  consider "x = 0" | "0 < x" | "x < 0" by linarith
  then show ?thesis
  proof cases
    case 1
    have "\<bar>0::int\<bar> < 2 ^ 53" "(0::rat) = of_int 0 * 2 powi 0" by simp_all
    then have "is_double 0" unfolding is_double_def by blast
    with 1 show ?thesis by (simp add: to_double_def)
  next
    case 2
    then show ?thesis by (rule pos)
  next
    case 3
    then have "is_double (to_double (- x))" by (intro pos) simp
    then have "is_double (- to_double (- x))" by (rule neg)
    then show ?thesis by (simp add: to_double_minus)
  qed
qed

lemma to_double_nearest_pos:
  assumes x: "0 < x" and d: "is_double d"
  shows "\<bar>to_double x - x\<bar> \<le> \<bar>d - x\<bar>"
proof -
  define e where "e = floor_log2 x"
  define q :: rat where "q = 2 powi (e - 52)"
  from d obtain m s where m: "\<bar>m\<bar> < 2 ^ 53" and dm: "d = of_int m * 2 powi s"
    unfolding is_double_def by blast
  have b: "2 powi e \<le> x" using floor_log2_bounds [OF x] by (simp add: e_def)
  show ?thesis
  proof (cases "e - 52 \<le> s")
    case True
    then have t: "0 \<le> s - (e - 52)" by simp
    define J where "J = m * 2 ^ nat (s - (e - 52))"
    have "d = of_int m * 2 powi (s - (e - 52)) * q"
      unfolding dm q_def by (simp add: power_int_diff)
    also have "of_int m * 2 powi (s - (e - 52)) = (of_int J :: rat)"
      using t by (simp add: power_int_def J_def)
    finally have dj: "d = of_int J * 2 powi (floor_log2 x - 52)"
      unfolding q_def e_def .
    show ?thesis unfolding dj by (rule to_double_nearest_multiple [OF x])
  next
    case False
    then have se: "53 + s \<le> e" by simp
    have "\<bar>d\<bar> = of_int \<bar>m\<bar> * 2 powi s" unfolding dm by (simp add: abs_mult)
    also have "\<dots> < of_int (2 ^ 53) * 2 powi s"
      using m by (intro mult_strict_right_mono) simp_all
    also have "\<dots> = 2 powi (53 + s)" by (simp add: power_int_add)
    also have "\<dots> \<le> 2 powi e" using se by (intro power_int_increasing) simp_all
    finally have dl: "\<bar>d\<bar> < 2 powi e" .
    have pe: "(2::rat) powi e = of_int (2 ^ 52) * 2 powi (floor_log2 x - 52)"
      by (simp add: e_def power_int_diff)
    have "\<bar>to_double x - x\<bar> \<le> \<bar>of_int (2 ^ 52) * 2 powi (floor_log2 x - 52) - x\<bar>"
      by (rule to_double_nearest_multiple [OF x])
    also have "\<dots> = \<bar>2 powi e - x\<bar>" by (simp only: pe [symmetric])
    also have "\<dots> = x - 2 powi e" using b by simp
    also have "\<dots> \<le> \<bar>d - x\<bar>" using dl b by (simp add: abs_if split: if_splits)
    finally show ?thesis .
  qed
qed

lemma to_double_nearest:
  assumes "is_double d"
  shows "\<bar>to_double x - x\<bar> \<le> \<bar>d - x\<bar>"
proof -
  have neg: "is_double (- z)" if "is_double z" for z
  proof -
    from that obtain m e where "\<bar>m\<bar> < 2 ^ 53" "z = of_int m * 2 powi e"
      unfolding is_double_def by blast
    then have "\<bar>- m\<bar> < 2 ^ 53" "- z = of_int (- m) * 2 powi e" by simp_all
    then show ?thesis unfolding is_double_def by blast
  qed
  consider "x = 0" | "0 < x" | "x < 0" by linarith
  then show ?thesis
  proof cases
    case 1
    then show ?thesis by (simp add: to_double_def)
  next
    case 2
    then show ?thesis using assms by (rule to_double_nearest_pos)
  next
    case 3
    then have "0 < - x" by simp
    from to_double_nearest_pos [OF this neg [OF assms]]
    have "\<bar>- to_double x + x\<bar> \<le> \<bar>- d + x\<bar>" by (simp add: to_double_minus)
    moreover have "\<bar>- to_double x + x\<bar> = \<bar>to_double x - x\<bar>" by (simp add: abs_minus_commute)
    moreover have "\<bar>- d + x\<bar> = \<bar>d - x\<bar>" by (simp add: abs_minus_commute)
    ultimately show ?thesis by simp
  qed
qed






declare ndigits.simps [simp del]




lemma limit_rows_take: "limit_rows n xs = take (nat n) xs"
proof (induction xs arbitrary: n)
  case Nil
  then show ?case by simp
next
  case (Cons x xs)
  show ?case
  proof (cases "n \<le> 0")
    case True
    then show ?thesis by simp
  next
    case False
    then have "nat n = Suc (nat (n - 1))" by simp
    with False Cons show ?thesis by simp
  qed
qed

lemma offset_rows_drop: "offset_rows n xs = drop (nat n) xs"
proof (induction xs arbitrary: n)
  case Nil
  then show ?case by simp
next
  case (Cons x xs)
  show ?case
  proof (cases "n \<le> 0")
    case True
    then show ?thesis by simp
  next
    case False
    then have "nat n = Suc (nat (n - 1))" by simp
    with False Cons show ?thesis by simp
  qed
qed





section \<open>Month names and their ordinals\<close>

lemma js_includes_set: "js_includes xs x = (x \<in> set xs)"
  by (induction xs) auto

lemma empty_not_month: "[] \<notin> set months"
  by (simp add: months_def)

lemma invalid_month_iff: "invalid_month month = (month \<notin> Some ` set months)"
  using empty_not_month by (cases month) (auto simp: invalid_month_def js_includes_set)

lemma indexOf_nth: "distinct xs \<Longrightarrow> k < length xs \<Longrightarrow> indexOf xs (xs ! k) = int k"
proof (induction xs arbitrary: k)
  case Nil
  then show ?case by simp
next
  case (Cons y ys)
  show ?case
  proof (cases k)
    case 0
    then show ?thesis by simp
  next
    case (Suc j)
    with Cons.prems have j: "j < length ys" and ne: "y \<noteq> ys ! j" and d: "distinct ys"
      by auto
    from Cons.IH [OF d j] ne Suc show ?thesis by (simp add: Let_def)
  qed
qed

lemma length_months: "length months = 12"
  by (simp add: months_def)

lemma distinct_months: "distinct months"
  by (simp add: months_def)

lemma valid_month_nth: "k < 12 \<Longrightarrow> \<not> invalid_month (Some (months ! k))"
  by (simp add: invalid_month_iff length_months)

lemma monthNum_nth: "k < 12 \<Longrightarrow> monthNum (Some (months ! k)) = int k + 1"
  by (simp add: monthNum_def indexOf_nth distinct_months length_months)

lemma where_month_nat:
  "where_month (int k + 1) rs = filter (\<lambda>r. dt_month (date_of_sale r) = k + 1) rs"
  unfolding where_month_def by (rule filter_cong) auto

lemma march_is_third: "months ! 2 = ''March''"
  by (simp add: months_def)

section \<open>Invalid months are rejected before the store is touched\<close>

text \<open>
  Claim C3. A month that is missing, or is not exactly (case-sensitively) one of the
  twelve names January to December, makes each of the five query handlers answer
  400 "Invalid month" with no effect performed: no SQL statement is sent to the store
  and no HTTP request is made.
\<close>

theorem invalid_month_rejected:
  assumes "month \<notin> Some ` set months" and "q_month q = month"
  shows "list_transactions d q = (Status400 ''Invalid month'', []) \<and>
         statistics d month = (Status400 ''Invalid month'', []) \<and>
         barchart d month = (Status400 ''Invalid month'', []) \<and>
         piechart d month = (Status400 ''Invalid month'', []) \<and>
         combined remote month = (Status400 ''Invalid month'', [])"
  using assms
  by (simp add: invalid_month_iff list_transactions_def statistics_def barchart_def
      piechart_def combined_def)

theorem invalid_month_rejected_witness:
  "Some ''march'' \<notin> Some ` set months \<and>
   list_transactions ex_db
     \<lparr>q_month = Some ''march'', q_search = None, q_page = None, q_perPage = None\<rparr> =
     (Status400 ''Invalid month'', []) \<and>
   statistics ex_db (Some ''march'') = (Status400 ''Invalid month'', []) \<and>
   barchart ex_db (Some ''march'') = (Status400 ''Invalid month'', []) \<and>
   piechart ex_db (Some ''march'') = (Status400 ''Invalid month'', []) \<and>
   combined (\<lambda>u. NetworkError) (Some ''march'') = (Status400 ''Invalid month'', [])"
proof -
  have h: "Some ''march'' \<notin> Some ` set months"
    by (simp add: months_def)
  show ?thesis
    using h invalid_month_rejected [OF h, of
        "\<lparr>q_month = Some ''march'', q_search = None, q_page = None, q_perPage = None\<rparr>"
        ex_db "\<lambda>u. NetworkError"]
    by simp
qed

section \<open>Statistics\<close>

lemma parseFloat_or_0_sum: "parseFloat_or_0 (sql_sum xs) = to_double (of_int (sum_list xs) / 100)"
  by (simp add: parseFloat_or_0_def sql_sum_def Let_def to_double_def)

lemma to_double_fixes: "is_double x \<Longrightarrow> to_double x = x"
proof -
  assume "is_double x"
  then obtain m e where "\<bar>m\<bar> < 2 ^ 53" "x = of_int m * 2 powi e"
    unfolding is_double_def by blast
  then show ?thesis by (simp add: to_double_exact)
qed

text \<open>
  Claim C5, amended. For the month with ordinal \<open>k + 1\<close>, on a store that answers, with
  \<open>rs\<close> the records of the month and \<open>x\<close> the exact sum of \<open>price\<close> over the sold
  records of \<open>rs\<close>: statistics answers 200 with \<open>totalSale\<close> the JavaScript number
  nearest to \<open>x\<close> (a binary64 value, and no binary64 value is closer to \<open>x\<close>; so it is
  within \<open>\<bar>x\<bar> * 2 powi (- 53)\<close> of \<open>x\<close>, and it is \<open>x\<close> when \<open>x\<close> is a binary64
  value), and 0 when the month has no sold record; \<open>soldItems\<close> and \<open>notSoldItems\<close>
  count the sold and the unsold records of \<open>rs\<close> and add up to the number of records
  of \<open>rs\<close>.
\<close>

theorem statistics_sum_and_counts:
  assumes "k < 12" and "month = Some (months ! k)" and "reachable d"
    and "rs = filter (\<lambda>r. dt_month (date_of_sale r) = k + 1) (rows d)"
    and "x = of_int (sum_list (map price (filter sold rs))) / 100"
  shows "\<exists>s. fst (statistics d month) = Status200 s \<and>
           is_double (totalSale s) \<and>
           (\<forall>y. is_double y \<longrightarrow> \<bar>totalSale s - x\<bar> \<le> \<bar>y - x\<bar>) \<and>
           \<bar>totalSale s - x\<bar> \<le> \<bar>x\<bar> * 2 powi (- 53) \<and>
           (is_double x \<longrightarrow> totalSale s = x) \<and>
           (filter sold rs = [] \<longrightarrow> totalSale s = 0) \<and>
           soldItems s = length (filter sold rs) \<and>
           notSoldItems s = length (filter (\<lambda>r. \<not> sold r) rs) \<and>
           soldItems s + notSoldItems s = length rs"
proof -
  have valid: "\<not> invalid_month month" and num: "monthNum month = int k + 1"
    using assms by (simp_all add: valid_month_nth monthNum_nth)
  have cnt: "parseInt_or_0 c = c" for c
    by (simp add: parseInt_or_0_def)
  have part: "length (filter sold rs) + length (filter (\<lambda>r. \<not> sold r) rs) = length rs"
    by (rule sum_length_filter_compl)
  define s where "s = \<lparr>totalSale = to_double x, soldItems = length (filter sold rs),
        notSoldItems = length (filter (\<lambda>r. \<not> sold r) rs)\<rparr>"
  have res: "fst (statistics d month) = Status200 s"
    using valid num assms(3)
    by (simp add: statistics_def parseFloat_or_0_sum cnt where_month_nat assms(4,5) s_def)
  have t: "totalSale s = to_double x" by (simp add: s_def)
  have e: "filter sold rs = [] \<longrightarrow> totalSale s = 0"
    by (simp add: t assms(5) to_double_def)
  show ?thesis
  proof (intro exI conjI)
    show "fst (statistics d month) = Status200 s" by (rule res)
    show "is_double (totalSale s)" unfolding t by (rule to_double_is_double)
    show "\<forall>y. is_double y \<longrightarrow> \<bar>totalSale s - x\<bar> \<le> \<bar>y - x\<bar>"
      unfolding t by (intro allI impI) (rule to_double_nearest)
    show "\<bar>totalSale s - x\<bar> \<le> \<bar>x\<bar> * 2 powi (- 53)" unfolding t by (rule to_double_error)
    show "is_double x \<longrightarrow> totalSale s = x" unfolding t by (intro impI) (rule to_double_fixes)
    show "filter sold rs = [] \<longrightarrow> totalSale s = 0" by (rule e)
    show "soldItems s = length (filter sold rs)" by (simp add: s_def)
    show "notSoldItems s = length (filter (\<lambda>r. \<not> sold r) rs)" by (simp add: s_def)
    show "soldItems s + notSoldItems s = length rs" using part by (simp add: s_def)
  qed
qed

theorem statistics_sum_and_counts_witness:
  "(2::nat) < 12 \<and> months ! 2 = ''March'' \<and> reachable ex_db \<and> is_double 50 \<and>
   (\<exists>s. fst (statistics ex_db (Some (months ! 2))) = Status200 s \<and> totalSale s = 50 \<and>
      soldItems s = 1 \<and> notSoldItems s = 1 \<and> soldItems s + notSoldItems s = 2)"
proof -
  have h: "(2::nat) < 12" "reachable ex_db" by (simp_all add: ex_db_def)
  have e: "filter (\<lambda>r. dt_month (date_of_sale r) = 2 + 1) (rows ex_db) =
      [ex_row 1 ''Blue x shirt'' 5000 ''A'' True (ex_date 2022 3 5),
       ex_row 2 ''Box'' 15000 ''B'' False (ex_date 2023 3 20)]"
    by (simp add: ex_db_def ex_rows_def ex_row_def ex_date_def)
  have "\<bar>50::int\<bar> < 2 ^ 53" "(50::rat) = of_int 50 * 2 powi 0" by simp_all
  then have i: "is_double 50" unfolding is_double_def by blast
  from statistics_sum_and_counts [OF h(1) refl h(2) refl refl]
  obtain s where s: "fst (statistics ex_db (Some (months ! 2))) = Status200 s"
    "is_double (of_int (sum_list (map price (filter sold
        (filter (\<lambda>r. dt_month (date_of_sale r) = 2 + 1) (rows ex_db))))) / 100) \<longrightarrow>
     totalSale s = of_int (sum_list (map price (filter sold
        (filter (\<lambda>r. dt_month (date_of_sale r) = 2 + 1) (rows ex_db))))) / 100"
    "soldItems s = length (filter sold
        (filter (\<lambda>r. dt_month (date_of_sale r) = 2 + 1) (rows ex_db)))"
    "notSoldItems s = length (filter (\<lambda>r. \<not> sold r)
        (filter (\<lambda>r. dt_month (date_of_sale r) = 2 + 1) (rows ex_db)))"
    by blast
  from s(2) i have "totalSale s = 50" unfolding e by (simp add: ex_row_def)
  moreover from s(3,4) have "soldItems s = 1" "notSoldItems s = 1"
    unfolding e by (simp_all add: ex_row_def)
  ultimately show ?thesis using h i s(1) march_is_third by auto
qed

lemma ex_big_rows_month: "where_month 3 ex_big_rows = ex_big_rows"
  unfolding where_month_def by (rule filter_True) (auto simp: ex_big_rows_def ex_row_def ex_date_def)

lemma ex_big_rows_sold: "filter sold ex_big_rows = ex_big_rows"
  by (rule filter_True) (auto simp: ex_big_rows_def ex_row_def)

lemma ex_big_rows_unsold: "filter (\<lambda>r. \<not> sold r) ex_big_rows = []"
  by (auto simp: filter_empty_conv ex_big_rows_def ex_row_def)

lemma ex_big_rows_length: "length ex_big_rows = 900720"
  by (simp add: ex_big_rows_def)

lemma ex_big_rows_nonempty: "ex_big_rows \<noteq> []"
  by (simp add: ex_big_rows_def)

lemma ex_big_rows_sum:"sum_list (map price ex_big_rows) = 9007199254740993"
  by (simp add: ex_big_rows_def ex_row_def comp_def sum_list_triv)

lemma ex_big_double: "to_double (9007199254740993 / 100) = 1441151880758559 / 16"
  by code_simp

text \<open>
  Claim C5, as stated, fails: \<open>totalSale\<close> is not always the sum of \<open>price\<close> over the
  sold records of the month. The store computes the exact decimal sum, and
  \<open>parseFloat\<close> rounds it to the nearest JavaScript number. On a store of 900720 sold
  records of March whose prices add up to 90071992547409.93 the handler returns
  1441151880758559 / 16, which is 90071992547409.9375.
\<close>

theorem statistics_rounding_counterexample:
  "fst (statistics \<lparr>reachable = True, rows = ex_big_rows\<rparr> (Some ''March'')) =
     Status200 \<lparr>totalSale = 1441151880758559 / 16, soldItems = 900720, notSoldItems = 0\<rparr> \<and>
   of_int (sum_list (map price (filter sold (where_month 3 ex_big_rows)))) / 100 =
     (9007199254740993 / 100 :: rat) \<and>
   (1441151880758559 / 16 :: rat) \<noteq> 9007199254740993 / 100"
proof -
  have valid: "\<not> invalid_month (Some ''March'')"
    using valid_month_nth [of 2] by (simp add: march_is_third)
  have num: "monthNum (Some ''March'') = 3"
    using monthNum_nth [of 2] by (simp add: march_is_third)
  have a: "fst (statistics \<lparr>reachable = True, rows = ex_big_rows\<rparr> (Some ''March'')) =
     Status200 \<lparr>totalSale = 1441151880758559 / 16, soldItems = 900720, notSoldItems = 0\<rparr>"
    using valid
    by (simp add: statistics_def num ex_big_rows_month ex_big_rows_sold ex_big_rows_unsold
        ex_big_rows_length parseFloat_or_0_sum ex_big_rows_sum ex_big_double parseInt_or_0_def
        ex_big_rows_nonempty)
  have b: "of_int (sum_list (map price (filter sold (where_month 3 ex_big_rows)))) / 100 =
     (9007199254740993 / 100 :: rat)"
    by (simp add: ex_big_rows_month ex_big_rows_sold ex_big_rows_sum)
  have c: "(1441151880758559 / 16 :: rat) \<noteq> 9007199254740993 / 100" by simp
  from a b c show ?thesis by (intro conjI)
qed

section \<open>Listing: month filter and pagination\<close>

lemma set_list_where: "set (list_where n s rs) \<subseteq> set (where_month n rs)"
  by (auto simp: list_where_def)

lemma list_where_no_search: "list_where n [] rs = where_month n rs"
  by (simp add: list_where_def trim_def)

lemma list_transactions_unpaged:
  assumes "\<not> invalid_month (q_month q)" and "reachable d" and "q_perPage q = None"
  shows "list_transactions d q =
    (Status200
       \<lparr>transactions = list_where (monthNum (q_month q)) (search_of q) (rows d),
        total = length (list_where (monthNum (q_month q)) (search_of q) (rows d)),
        page = 1,
        perPage = of_nat (length (list_where (monthNum (q_month q)) (search_of q) (rows d))),
        totalPages = Fin 1\<rparr>,
     [Query SelectTransactions, Query CountTransactions])"
  using assms by (simp add: list_transactions_def Let_def)





lemma list_transactions_subset:
  assumes "list_transactions d q = (Status200 b, es)"
  shows "set (transactions b) \<subseteq> set (list_where (monthNum (q_month q)) (search_of q) (rows d))"
proof (cases "q_perPage q")
  case None
  with assms show ?thesis
    by (auto simp: list_transactions_def Let_def split: if_splits)
next
  case (Some pp)
  with assms show ?thesis
    by (auto simp: list_transactions_def Let_def limit_rows_take offset_rows_drop
        split: if_splits option.splits Option.bind_splits dest!: in_set_takeD in_set_dropD)
qed

lemma list_transactions_total:
  assumes "list_transactions d q = (Status200 b, es)"
  shows "total b = length (list_where (monthNum (q_month q)) (search_of q) (rows d))"
proof (cases "q_perPage q")
  case None
  with assms show ?thesis
    by (auto simp: list_transactions_def Let_def split: if_splits)
next
  case (Some pp)
  with assms show ?thesis
    by (auto simp: list_transactions_def Let_def split: if_splits option.splits Option.bind_splits)
qed

text \<open>
  Claim C7. For the month with ordinal \<open>k + 1\<close>, every record that the listing returns
  is a record of the store whose date of sale has calendar month \<open>k + 1\<close>, whatever the
  search, page and page size; and with no search and no page size, on a store that
  answers, the listing returns all such records, whatever their year.
\<close>

theorem list_transactions_by_month:
  assumes "k < 12" and "q_month q = Some (months ! k)"
  shows "(\<forall>b es. list_transactions d q = (Status200 b, es) \<longrightarrow>
            (\<forall>r \<in> set (transactions b). r \<in> set (rows d) \<and> dt_month (date_of_sale r) = k + 1)) \<and>
         (reachable d \<and> q_search q = None \<and> q_perPage q = None \<longrightarrow>
            (\<exists>b es. list_transactions d q = (Status200 b, es) \<and>
               transactions b = filter (\<lambda>r. dt_month (date_of_sale r) = k + 1) (rows d)))"
proof (intro conjI allI impI)
  fix b es
  assume ok: "list_transactions d q = (Status200 b, es)"
  have "set (transactions b) \<subseteq> set (list_where (int k + 1) (search_of q) (rows d))"
    using list_transactions_subset [OF ok] assms by (simp add: monthNum_nth)
  also have "\<dots> \<subseteq> set (where_month (int k + 1) (rows d))"
    by (rule set_list_where)
  finally have "set (transactions b) \<subseteq> set (where_month (int k + 1) (rows d))" .
  then show "\<forall>r \<in> set (transactions b). r \<in> set (rows d) \<and> dt_month (date_of_sale r) = k + 1"
    by (auto simp: where_month_nat)
next
  assume h: "reachable d \<and> q_search q = None \<and> q_perPage q = None"
  have valid: "\<not> invalid_month (q_month q)" and num: "monthNum (q_month q) = int k + 1"
    using assms by (simp_all add: valid_month_nth monthNum_nth)
  from h have s: "search_of q = []" by (simp add: search_of_def)
  from h valid
  show "\<exists>b es. list_transactions d q = (Status200 b, es) \<and>
      transactions b = filter (\<lambda>r. dt_month (date_of_sale r) = k + 1) (rows d)"
    by (simp add: list_transactions_unpaged num s list_where_no_search where_month_nat)
qed

theorem list_transactions_by_month_witness:
  "(2::nat) < 12 \<and> months ! 2 = ''March'' \<and>
   (\<exists>b es. list_transactions ex_db
        \<lparr>q_month = Some (months ! 2), q_search = None, q_page = None, q_perPage = None\<rparr> =
        (Status200 b, es) \<and>
      transactions b =
        [ex_row 1 ''Blue x shirt'' 5000 ''A'' True (ex_date 2022 3 5),
         ex_row 2 ''Box'' 15000 ''B'' False (ex_date 2023 3 20)])"
proof -
  let ?q = "\<lparr>q_month = Some (months ! 2), q_search = None, q_page = None, q_perPage = None\<rparr>"
  have h: "(2::nat) < 12" "q_month ?q = Some (months ! 2)" by simp_all
  have e: "filter (\<lambda>r. dt_month (date_of_sale r) = 2 + 1) (rows ex_db) =
      [ex_row 1 ''Blue x shirt'' 5000 ''A'' True (ex_date 2022 3 5),
       ex_row 2 ''Box'' 15000 ''B'' False (ex_date 2023 3 20)]"
    by (simp add: ex_db_def ex_rows_def ex_row_def ex_date_def)
  have r: "reachable ex_db \<and> q_search ?q = None \<and> q_perPage ?q = None"
    by (simp add: ex_db_def)
  from list_transactions_by_month [OF h, of ex_db] r
  have "\<exists>b es. list_transactions ex_db ?q = (Status200 b, es) \<and>
      transactions b = filter (\<lambda>r. dt_month (date_of_sale r) = 2 + 1) (rows ex_db)"
    by blast
  with h(1) march_is_third show ?thesis unfolding e by simp
qed





section \<open>Grouping\<close>

lemma coll_eq_refl: "coll_eq a a"
  by (simp add: coll_eq_def)

lemma coll_eq_sym: "coll_eq a b \<Longrightarrow> coll_eq b a"
  by (simp add: coll_eq_def)

lemma coll_eq_trans: "coll_eq a b \<Longrightarrow> coll_eq b c \<Longrightarrow> coll_eq a c"
  by (simp add: coll_eq_def)

lemma group_count_sum: "sum_list (map snd (group_count ks)) = length ks"
proof (induction ks rule: group_count.induct)
  case 1
  then show ?case by simp
next
  case (2 k ks)
  have "length (filter (coll_eq k) ks) + length (filter (\<lambda>x. \<not> coll_eq k x) ks) = length ks"
    by (rule sum_length_filter_compl)
  with 2 show ?case by simp
qed

lemma group_count_labels: "fst ` set (group_count ks) \<subseteq> set ks"
proof (induction ks rule: group_count.induct)
  case 1
  then show ?case by simp
next
  case (2 k ks)
  then show ?case by auto
qed

lemma group_count_label_mem: "p \<in> set (group_count ks) \<Longrightarrow> fst p \<in> set ks"
  using group_count_labels [of ks] by (simp add: image_subset_iff)

lemma group_count_counts:
  "(l, n) \<in> set (group_count ks) \<Longrightarrow> n = length (filter (coll_eq l) ks) \<and> 0 < n"
proof (induction ks rule: group_count.induct)
  case 1
  then show ?case by simp
next
  case (2 k ks)
  show ?case
  proof (cases "(l, n) = (k, Suc (length (filter (coll_eq k) ks)))")
    case True
    then show ?thesis by (simp add: coll_eq_refl)
  next
    case False
    with "2.prems" have mem: "(l, n) \<in> set (group_count (filter (\<lambda>x. \<not> coll_eq k x) ks))"
      by auto
    from group_count_label_mem [OF mem] have "l \<in> set (filter (\<lambda>x. \<not> coll_eq k x) ks)"
      by simp
    then have nk: "\<not> coll_eq k l" by simp
    have same: "filter (coll_eq l) (filter (\<lambda>x. \<not> coll_eq k x) ks) = filter (coll_eq l) ks"
      unfolding filter_filter
    proof (rule filter_cong [OF refl])
      fix x
      show "(\<not> coll_eq k x \<and> coll_eq l x) = coll_eq l x"
        using nk coll_eq_trans [of k x l] coll_eq_sym [of l x] by blast
    qed
    from nk have nl: "\<not> coll_eq l k" using coll_eq_sym by blast
    from "2.IH" [OF mem] have ih: "n = length (filter (coll_eq l) ks) \<and> 0 < n"
      unfolding same .
    have e: "filter (coll_eq l) (k # ks) = filter (coll_eq l) ks"
      using nl by simp
    show ?thesis unfolding e using ih .
  qed
qed

lemma group_count_once:
  "x \<in> set ks \<Longrightarrow> length (filter (\<lambda>p. coll_eq (fst p) x) (group_count ks)) = 1"
proof (induction ks rule: group_count.induct)
  case 1
  then show ?case by simp
next
  case (2 k ks)
  let ?rest = "filter (\<lambda>y. \<not> coll_eq k y) ks"
  show ?case
  proof (cases "coll_eq k x")
    case True
    have "filter (\<lambda>p. coll_eq (fst p) x) (group_count ?rest) = []"
    proof (rule filter_False, rule ballI)
      fix p
      assume "p \<in> set (group_count ?rest)"
      then have "fst p \<in> set ?rest" by (rule group_count_label_mem)
      then have "\<not> coll_eq k (fst p)" by simp
      then show "\<not> coll_eq (fst p) x"
        using True coll_eq_trans [of k x "fst p"] coll_eq_sym [of "fst p" x] by blast
    qed
    with True show ?thesis by simp
  next
    case False
    with "2.prems" have "x \<in> set ?rest" using coll_eq_refl by auto
    with "2.IH" False show ?thesis by simp
  qed
qed

lemma group_count_distinct: "distinct (map fst (group_count ks))"
proof (induction ks rule: group_count.induct)
  case 1
  then show ?case by simp
next
  case (2 k ks)
  have "k \<notin> set (filter (\<lambda>y. \<not> coll_eq k y) ks)"
    by (simp add: coll_eq_refl)
  with group_count_labels [of "filter (\<lambda>y. \<not> coll_eq k y) ks"]
  have "k \<notin> fst ` set (group_count (filter (\<lambda>y. \<not> coll_eq k y) ks))"
    by blast
  with 2 show ?case by simp
qed

lemma group_count_exact:
  assumes "\<forall>x \<in> set ks. \<forall>y \<in> set ks. coll_eq x y \<longrightarrow> x = y"
  shows "fst ` set (group_count ks) = set ks \<and>
         (\<forall>p \<in> set (group_count ks). snd p = length (filter (\<lambda>x. x = fst p) ks))"
proof (intro conjI ballI)
  show "fst ` set (group_count ks) = set ks"
  proof
    show "fst ` set (group_count ks) \<subseteq> set ks" by (rule group_count_labels)
    show "set ks \<subseteq> fst ` set (group_count ks)"
    proof
      fix x
      assume x: "x \<in> set ks"
      then have "length (filter (\<lambda>p. coll_eq (fst p) x) (group_count ks)) = 1"
        by (rule group_count_once)
      then have "filter (\<lambda>p. coll_eq (fst p) x) (group_count ks) \<noteq> []" by auto
      then obtain p where p: "p \<in> set (group_count ks)" "coll_eq (fst p) x"
        by (auto simp: filter_empty_conv)
      from p(1) have "fst p \<in> set ks" by (rule group_count_label_mem)
      with assms x p(2) have "fst p = x" by blast
      with p(1) show "x \<in> fst ` set (group_count ks)" by force
    qed
  qed
next
  fix p
  assume p: "p \<in> set (group_count ks)"
  then have m: "fst p \<in> set ks" by (rule group_count_label_mem)
  from p have "(fst p, snd p) \<in> set (group_count ks)" by simp
  then have "snd p = length (filter (coll_eq (fst p)) ks) \<and> 0 < snd p"
    by (rule group_count_counts)
  then have n: "snd p = length (filter (coll_eq (fst p)) ks)" by (rule conjunct1)
  have "filter (coll_eq (fst p)) ks = filter (\<lambda>x. x = fst p) ks"
  proof (rule filter_cong [OF refl])
    fix x
    assume "x \<in> set ks"
    with assms m show "coll_eq (fst p) x = (x = fst p)"
      using coll_eq_refl by blast
  qed
  with n show "snd p = length (filter (\<lambda>x. x = fst p) ks)" by (simp only:)
qed

section \<open>Pie chart\<close>

text \<open>
  Claim C9, as stated, fails when two categories of the month differ only in the case
  of letters: the store compares categories up to case, so \<open>GROUP BY category\<close> puts
  \<open>Toys\<close> and \<open>toys\<close> in one group and the pie chart returns a single pair for the two
  distinct categories.
\<close>

theorem piechart_letter_case_counterexample:
  "fst (piechart
      \<lparr>reachable = True,
       rows = [ex_row 1 ''Pen'' 1000 ''Toys'' True (ex_date 2022 3 5),
               ex_row 2 ''Ink'' 2000 ''toys'' True (ex_date 2022 3 6)]\<rparr>
      (Some ''March'')) = Status200 [(''Toys'', 2)] \<and>
   category (ex_row 1 ''Pen'' 1000 ''Toys'' True (ex_date 2022 3 5)) \<noteq>
   category (ex_row 2 ''Ink'' 2000 ''toys'' True (ex_date 2022 3 6))"
  by code_simp

text \<open>
  Claim C9, amended. For the month with ordinal \<open>k + 1\<close>, on a store that answers, the
  pie chart groups the records of the month by category, categories that differ only in
  the case of letters counting as one: the counts of the pairs add up to the number of
  records of the month; the labels are pairwise different; every record of the month
  has exactly one pair whose label equals its category up to case; and every pair is
  labelled with a category present in the month and counts the records of the month
  whose category equals the label up to case, at least one. When no two categories of
  the month differ only in case, the labels are exactly the categories present and each
  count is the number of records with exactly that category.
\<close>

theorem piechart_groups:
  assumes "k < 12" and "month = Some (months ! k)" and "reachable d"
    and "rs = filter (\<lambda>r. dt_month (date_of_sale r) = k + 1) (rows d)"
  shows "\<exists>ps. fst (piechart d month) = Status200 ps \<and>
           sum_list (map snd ps) = length rs \<and>
           distinct (map fst ps) \<and>
           (\<forall>r \<in> set rs. length (filter (\<lambda>p. coll_eq (fst p) (category r)) ps) = 1) \<and>
           (\<forall>p \<in> set ps. fst p \<in> category ` set rs \<and> 0 < snd p \<and>
              snd p = length (filter (\<lambda>r. coll_eq (fst p) (category r)) rs)) \<and>
           ((\<forall>x \<in> set (map category rs). \<forall>y \<in> set (map category rs). coll_eq x y \<longrightarrow> x = y) \<longrightarrow>
              fst ` set ps = category ` set rs \<and>
              (\<forall>p \<in> set ps. snd p = length (filter (\<lambda>r. category r = fst p) rs)))"
proof -
  have valid: "\<not> invalid_month month" and num: "monthNum month = int k + 1"
    using assms by (simp_all add: valid_month_nth monthNum_nth)
  let ?ps = "group_count (map category rs)"
  have res: "fst (piechart d month) = Status200 ?ps"
    using valid num assms(3,4) by (simp add: piechart_def where_month_nat)
  have s: "sum_list (map snd ?ps) = length rs"
    by (simp add: group_count_sum)
  have o: "\<forall>r \<in> set rs. length (filter (\<lambda>p. coll_eq (fst p) (category r)) ?ps) = 1"
    by (simp add: group_count_once)
  have c: "\<forall>p \<in> set ?ps. fst p \<in> category ` set rs \<and> 0 < snd p \<and>
      snd p = length (filter (\<lambda>r. coll_eq (fst p) (category r)) rs)"
  proof
    fix p
    assume p: "p \<in> set ?ps"
    then have m: "fst p \<in> category ` set rs"
      using group_count_label_mem [of p "map category rs"] by simp
    from p have "(fst p, snd p) \<in> set ?ps" by simp
    then have both: "snd p = length (filter (coll_eq (fst p)) (map category rs)) \<and> 0 < snd p"
      by (rule group_count_counts)
    have f: "length (filter (coll_eq (fst p)) (map category rs)) =
        length (filter (\<lambda>r. coll_eq (fst p) (category r)) rs)"
      by (simp add: filter_map comp_def)
    from both have n: "snd p = length (filter (\<lambda>r. coll_eq (fst p) (category r)) rs)"
      unfolding f by (rule conjunct1)
    from both have pos: "0 < snd p" by (rule conjunct2)
    from m pos n show "fst p \<in> category ` set rs \<and> 0 < snd p \<and>
      snd p = length (filter (\<lambda>r. coll_eq (fst p) (category r)) rs)"
      by (intro conjI)
  qed
  have x: "(\<forall>x \<in> set (map category rs). \<forall>y \<in> set (map category rs). coll_eq x y \<longrightarrow> x = y) \<longrightarrow>
      fst ` set ?ps = category ` set rs \<and>
      (\<forall>p \<in> set ?ps. snd p = length (filter (\<lambda>r. category r = fst p) rs))"
  proof
    assume a: "\<forall>x \<in> set (map category rs). \<forall>y \<in> set (map category rs). coll_eq x y \<longrightarrow> x = y"
    have f: "length (filter (\<lambda>x. x = l) (map category rs)) =
        length (filter (\<lambda>r. category r = l) rs)" for l
      by (simp add: filter_map comp_def)
    from group_count_exact [OF a]
    show "fst ` set ?ps = category ` set rs \<and>
      (\<forall>p \<in> set ?ps. snd p = length (filter (\<lambda>r. category r = fst p) rs))"
      unfolding f by simp
  qed
  show ?thesis
  proof (intro exI conjI)
    show "fst (piechart d month) = Status200 ?ps" by (rule res)
    show "sum_list (map snd ?ps) = length rs" by (rule s)
    show "distinct (map fst ?ps)" by (rule group_count_distinct)
    show "\<forall>r \<in> set rs. length (filter (\<lambda>p. coll_eq (fst p) (category r)) ?ps) = 1" by (rule o)
    show "\<forall>p \<in> set ?ps. fst p \<in> category ` set rs \<and> 0 < snd p \<and>
      snd p = length (filter (\<lambda>r. coll_eq (fst p) (category r)) rs)" by (rule c)
    show "(\<forall>x \<in> set (map category rs). \<forall>y \<in> set (map category rs). coll_eq x y \<longrightarrow> x = y) \<longrightarrow>
      fst ` set ?ps = category ` set rs \<and>
      (\<forall>p \<in> set ?ps. snd p = length (filter (\<lambda>r. category r = fst p) rs))" by (rule x)
  qed
qed


theorem piechart_groups_witness:
  "(2::nat) < 12 \<and> months ! 2 = ''March'' \<and> reachable ex_db \<and>
   fst (piechart ex_db (Some (months ! 2))) = Status200 [(''A'', 1), (''B'', 1)] \<and>
   (\<exists>ps. fst (piechart ex_db (Some (months ! 2))) = Status200 ps \<and>
      sum_list (map snd ps) = 2 \<and> distinct (map fst ps))"
proof -
  have h: "(2::nat) < 12" "reachable ex_db" by (simp_all add: ex_db_def)
  have e: "filter (\<lambda>r. dt_month (date_of_sale r) = 2 + 1) (rows ex_db) =
      [ex_row 1 ''Blue x shirt'' 5000 ''A'' True (ex_date 2022 3 5),
       ex_row 2 ''Box'' 15000 ''B'' False (ex_date 2023 3 20)]"
    by (simp add: ex_db_def ex_rows_def ex_row_def ex_date_def)
  have v: "fst (piechart ex_db (Some (months ! 2))) = Status200 [(''A'', 1), (''B'', 1)]"
    by code_simp
  from piechart_groups [OF h(1) refl h(2) refl]
  obtain ps where "fst (piechart ex_db (Some (months ! 2))) = Status200 ps"
    "sum_list (map snd ps) = 2" "distinct (map fst ps)"
    unfolding e by auto
  with h v march_is_third show ?thesis by blast
qed

section \<open>Bar chart\<close>

text \<open>
  What holds of the bar chart for every month: the counts add up to the number of
  records of the month, no pair has count 0, and every label is the price range of a
  record of the month.
\<close>

lemma sum_insert_by_id: "sum_list (map snd (insert_by_id p qs)) = snd p + sum_list (map snd qs)"
  by (induction qs) auto

lemma sum_order_by_id: "sum_list (map snd (order_by_id ps)) = sum_list (map snd ps)"
  unfolding order_by_id_def by (induction ps) (auto simp: sum_insert_by_id)

lemma set_insert_by_id: "set (insert_by_id p qs) = insert p (set qs)"
  by (induction qs) auto

lemma set_order_by_id: "set (order_by_id ps) = set ps"
  unfolding order_by_id_def by (induction ps) (auto simp: set_insert_by_id)

lemma price_range_labels:
  "price_range p \<in> {''0-100'', ''101-200'', ''201-300'', ''301-400'', ''401-500'', ''501-600'',
     ''601-700'', ''701-800'', ''801-900'', ''901-above''}"
  by (simp add: price_range_def)

lemma barchart_counts:
  assumes "k < 12" and "month = Some (months ! k)" and "reachable d"
    and "rs = filter (\<lambda>r. dt_month (date_of_sale r) = k + 1) (rows d)"
  shows "\<exists>ps. fst (barchart d month) = Status200 ps \<and>
           sum_list (map snd ps) = length rs \<and>
           (\<forall>p \<in> set ps. 0 < snd p \<and> fst p \<in> (\<lambda>r. price_range (price r)) ` set rs)"
proof -
  have valid: "\<not> invalid_month month" and num: "monthNum month = int k + 1"
    using assms by (simp_all add: valid_month_nth monthNum_nth)
  let ?ks = "map (\<lambda>r. price_range (price r)) rs"
  have res: "fst (barchart d month) = Status200 (order_by_id (group_count ?ks))"
    using valid num assms(3,4) by (simp add: barchart_def where_month_nat)
  have s: "sum_list (map snd (order_by_id (group_count ?ks))) = length rs"
    by (simp add: sum_order_by_id group_count_sum)
  have c: "\<forall>p \<in> set (order_by_id (group_count ?ks)).
      0 < snd p \<and> fst p \<in> (\<lambda>r. price_range (price r)) ` set rs"
  proof
    fix p
    assume "p \<in> set (order_by_id (group_count ?ks))"
    then have p: "p \<in> set (group_count ?ks)" by (simp add: set_order_by_id)
    then have m: "fst p \<in> (\<lambda>r. price_range (price r)) ` set rs"
      using group_count_label_mem [of p ?ks] by simp
    from p have "(fst p, snd p) \<in> set (group_count ?ks)" by simp
    then have "snd p = length (filter (coll_eq (fst p)) ?ks) \<and> 0 < snd p"
      by (rule group_count_counts)
    then have "0 < snd p" by (rule conjunct2)
    with m show "0 < snd p \<and> fst p \<in> (\<lambda>r. price_range (price r)) ` set rs" by (intro conjI)
  qed
  from res s c show ?thesis by (intro exI conjI)
qed

text \<open>
  On prices that are whole units the \<open>CASE\<close> expression is the partition into the ten
  ranges; a price strictly between 100 and 101 falls through to the last label.
\<close>

lemma between_whole: "between (n * 100) a b = (a \<le> n \<and> n \<le> b)"
  by (simp add: between_def)

lemma price_range_whole:
  assumes "0 \<le> n"
  shows "price_range (n * 100) =
     (if n \<le> 100 then ''0-100''
      else if n \<le> 200 then ''101-200''
      else if n \<le> 300 then ''201-300''
      else if n \<le> 400 then ''301-400''
      else if n \<le> 500 then ''401-500''
      else if n \<le> 600 then ''501-600''
      else if n \<le> 700 then ''601-700''
      else if n \<le> 800 then ''701-800''
      else if n \<le> 900 then ''801-900''
      else ''901-above'')"
  unfolding price_range_def between_whole using assms by auto

lemma price_range_gap: "10000 < p \<Longrightarrow> p < 10100 \<Longrightarrow> price_range p = ''901-above''"
  by (simp add: price_range_def between_def)

text \<open>
  Claim C2 says that a record is counted under \<open>901-above\<close> only when its price exceeds
  900. The \<open>ELSE\<close> branch of the \<open>CASE\<close> also takes every price that falls between two
  ranges: a single March record priced 100.50 is reported as one record of
  \<open>901-above\<close>.
\<close>

theorem barchart_gap_price:
  "fst (barchart
      \<lparr>reachable = True, rows = [ex_row 1 ''Pen'' 10050 ''A'' True (ex_date 2022 3 5)]\<rparr>
      (Some ''March'')) = Status200 [(''901-above'', 1)]"
  by code_simp

section \<open>The search filter: LIKE and substrings\<close>

text \<open>
  \<open>contains_ci\<close> is the substring relation up to the case of letters
  (\<open>contains_ci_iff\<close>), and a pattern \<open>%s%\<close> whose \<open>s\<close> has no \<open>%\<close>, \<open>_\<close> or
  backslash matches exactly the texts that contain \<open>s\<close> in that sense
  (\<open>like_searchParam_iff\<close>).
\<close>

lemma like_percent_all: "like ''%'' t"
  by (induction t) auto

lemma like_percent_iff: "like (CHR ''%'' # ps) t = (\<exists>a b. t = a @ b \<and> like ps b)"
proof (induction t)
  case Nil
  then show ?case by simp
next
  case (Cons c cs)
  show ?case
  proof
    assume "like (CHR ''%'' # ps) (c # cs)"
    then consider "like ps (c # cs)" | "like (CHR ''%'' # ps) cs" by auto
    then show "\<exists>a b. c # cs = a @ b \<and> like ps b"
    proof cases
      case 1
      then have "c # cs = [] @ (c # cs) \<and> like ps (c # cs)" by simp
      then show ?thesis by blast
    next
      case 2
      with Cons.IH obtain a b where "cs = a @ b" "like ps b" by blast
      then have "c # cs = (c # a) @ b \<and> like ps b" by simp
      then show ?thesis by blast
    qed
  next
    assume "\<exists>a b. c # cs = a @ b \<and> like ps b"
    then obtain a b where ab: "c # cs = a @ b" "like ps b" by blast
    show "like (CHR ''%'' # ps) (c # cs)"
    proof (cases a)
      case Nil
      with ab have "like ps (c # cs)" by simp
      then show ?thesis by simp
    next
      case (Cons x xs)
      with ab have "cs = xs @ b" by simp
      with ab Cons.IH have "like (CHR ''%'' # ps) cs" by blast
      then show ?thesis by simp
    qed
  qed
qed

lemma like_literal_iff:
  assumes "\<forall>c \<in> set s. \<not> is_meta c"
  shows "like (s @ ps) t =
         (\<exists>a b. t = a @ b \<and> map lower_char a = map lower_char s \<and> like ps b)"
  using assms
proof (induction s arbitrary: t)
  case Nil
  then show ?case by simp
next
  case (Cons x xs)
  then have x: "x \<noteq> CHR ''%''" "x \<noteq> CHR ''_''" "x \<noteq> CHR 0x5C"
    and xs: "\<forall>c \<in> set xs. \<not> is_meta c"
    by (auto simp: is_meta_def)
  show ?case
  proof (cases t)
    case Nil
    with x show ?thesis by simp
  next
    case (Cons c cs)
    have "like ((x # xs) @ ps) (c # cs) = (coll_eq_char x c \<and> like (xs @ ps) cs)"
      using x by simp
    also have "\<dots> = (lower_char x = lower_char c \<and>
        (\<exists>a b. cs = a @ b \<and> map lower_char a = map lower_char xs \<and> like ps b))"
      using Cons.IH [OF xs] by (simp add: coll_eq_char_def)
    also have "\<dots> =
        (\<exists>a b. c # cs = a @ b \<and> map lower_char a = map lower_char (x # xs) \<and> like ps b)"
    proof
      assume "lower_char x = lower_char c \<and>
        (\<exists>a b. cs = a @ b \<and> map lower_char a = map lower_char xs \<and> like ps b)"
      then obtain a b where "lower_char x = lower_char c" "cs = a @ b"
        "map lower_char a = map lower_char xs" "like ps b" by blast
      then have "c # cs = (c # a) @ b \<and> map lower_char (c # a) = map lower_char (x # xs) \<and>
          like ps b"
        by simp
      then show "\<exists>a b. c # cs = a @ b \<and> map lower_char a = map lower_char (x # xs) \<and>
          like ps b"
        by blast
    next
      assume "\<exists>a b. c # cs = a @ b \<and> map lower_char a = map lower_char (x # xs) \<and> like ps b"
      then obtain a b where ab: "c # cs = a @ b" "map lower_char a = map lower_char (x # xs)"
        "like ps b"
        by blast
      then obtain a' where a': "a = c # a'" by (cases a) auto
      with ab show "lower_char x = lower_char c \<and>
        (\<exists>a b. cs = a @ b \<and> map lower_char a = map lower_char xs \<and> like ps b)"
        by auto
    qed
    finally show ?thesis using Cons by simp
  qed
qed

lemma prefix_ci_iff: "prefix_ci s t = (\<exists>m e. t = m @ e \<and> map lower_char m = map lower_char s)"
proof (induction s t rule: prefix_ci.induct)
  case (1 t)
  then show ?case by simp
next
  case (2 x xs)
  then show ?case by simp
next
  case (3 x xs c cs)
  show ?case
  proof
    assume "prefix_ci (x # xs) (c # cs)"
    with 3 obtain m e where "lower_char x = lower_char c" "cs = m @ e"
      "map lower_char m = map lower_char xs"
      by auto
    then have "c # cs = (c # m) @ e \<and> map lower_char (c # m) = map lower_char (x # xs)"
      by simp
    then show "\<exists>m e. c # cs = m @ e \<and> map lower_char m = map lower_char (x # xs)"
      by blast
  next
    assume "\<exists>m e. c # cs = m @ e \<and> map lower_char m = map lower_char (x # xs)"
    then obtain m e where me: "c # cs = m @ e" "map lower_char m = map lower_char (x # xs)"
      by blast
    then obtain m' where "m = c # m'" by (cases m) auto
    with me have "lower_char x = lower_char c" "cs = m' @ e"
      "map lower_char m' = map lower_char xs"
      by auto
    with 3 show "prefix_ci (x # xs) (c # cs)" by auto
  qed
qed

lemma contains_ci_split:
  "contains_ci s t = (\<exists>a m e. t = a @ m @ e \<and> map lower_char m = map lower_char s)"
proof (induction t)
  case Nil
  then show ?case by auto
next
  case (Cons c cs)
  show ?case
  proof
    assume "contains_ci s (c # cs)"
    then consider "prefix_ci s (c # cs)" | "contains_ci s cs" by auto
    then show "\<exists>a m e. c # cs = a @ m @ e \<and> map lower_char m = map lower_char s"
    proof cases
      case 1
      then obtain m e where "c # cs = [] @ m @ e" "map lower_char m = map lower_char s"
        by (auto simp: prefix_ci_iff)
      then show ?thesis by blast
    next
      case 2
      with Cons.IH obtain a m e where "cs = a @ m @ e" "map lower_char m = map lower_char s"
        by blast
      then have "c # cs = (c # a) @ m @ e \<and> map lower_char m = map lower_char s" by simp
      then show ?thesis by blast
    qed
  next
    assume "\<exists>a m e. c # cs = a @ m @ e \<and> map lower_char m = map lower_char s"
    then obtain a m e where ame: "c # cs = a @ m @ e" "map lower_char m = map lower_char s"
      by blast
    show "contains_ci s (c # cs)"
    proof (cases a)
      case Nil
      with ame have "prefix_ci s (c # cs)" by (auto simp: prefix_ci_iff)
      then show ?thesis by simp
    next
      case (Cons x xs)
      with ame have "cs = xs @ m @ e" by simp
      with ame Cons.IH have "contains_ci s cs" by blast
      then show ?thesis by simp
    qed
  qed
qed

lemma contains_ci_iff:
  "contains_ci s t = (\<exists>pre suf. map lower_char t = pre @ map lower_char s @ suf)"
  unfolding contains_ci_split
proof
  assume "\<exists>a m e. t = a @ m @ e \<and> map lower_char m = map lower_char s"
  then obtain a m e where "t = a @ m @ e" "map lower_char m = map lower_char s" by blast
  then have "map lower_char t = map lower_char a @ map lower_char s @ map lower_char e" by simp
  then show "\<exists>pre suf. map lower_char t = pre @ map lower_char s @ suf" by blast
next
  assume "\<exists>pre suf. map lower_char t = pre @ map lower_char s @ suf"
  then obtain pre suf where "map lower_char t = pre @ map lower_char s @ suf" by blast
  then have "\<exists>us vs. t = us @ vs \<and> pre = map lower_char us \<and>
      map lower_char s @ suf = map lower_char vs"
    by (simp add: map_eq_append_conv)
  then obtain a r where ar: "t = a @ r" and r: "map lower_char s @ suf = map lower_char r"
    by blast
  from r have "\<exists>us vs. r = us @ vs \<and> map lower_char s = map lower_char us \<and>
      suf = map lower_char vs"
    by (simp add: append_eq_map_conv)
  then obtain m e where "r = m @ e" "map lower_char m = map lower_char s"
    by auto
  with ar show "\<exists>a m e. t = a @ m @ e \<and> map lower_char m = map lower_char s" by blast
qed

lemma like_searchParam_iff:
  assumes "\<forall>c \<in> set s. \<not> is_meta c"
  shows "like (searchParam s) t = contains_ci s t"
proof -
  have "like (searchParam s) t = (\<exists>a b. t = a @ b \<and> like (s @ ''%'') b)"
    by (simp add: searchParam_def like_percent_iff)
  also have "\<dots> = (\<exists>a m e. t = a @ m @ e \<and> map lower_char m = map lower_char s)"
    by (simp add: like_literal_iff [OF assms] like_percent_all) blast
  finally show ?thesis by (simp add: contains_ci_split)
qed

lemma search_clause_iff:
  assumes "\<forall>c \<in> set s. \<not> is_meta c"
  shows "search_clause (searchParam s) r =
    (contains_ci s (title r) \<or> contains_ci s (description r) \<or>
     contains_ci s (cast_char (price r)))"
  by (simp add: search_clause_def like_searchParam_iff [OF assms])

lemma list_where_contains:
  assumes "trim s \<noteq> []" and "\<forall>c \<in> set s. \<not> is_meta c"
  shows "list_where (int k + 1) s rs =
    filter (\<lambda>r. contains_ci s (title r) \<or> contains_ci s (description r) \<or>
                contains_ci s (cast_char (price r)))
      (filter (\<lambda>r. dt_month (date_of_sale r) = k + 1) rs)"
  using assms(1) by (simp add: list_where_def where_month_nat search_clause_iff [OF assms(2)])

text \<open>
  Claim C8, as stated, fails on a search string that holds a \<open>LIKE\<close> wildcard: the
  search \<open>_\<close> is not empty after trimming, and the March listing keeps the record
  titled \<open>Box\<close>, though neither its title, nor its description, nor the text of its
  price (150.00) contains an underscore.
\<close>

theorem search_wildcard_counterexample:
  "trim ''_'' \<noteq> [] \<and>
   fst (list_transactions ex_db
          \<lparr>q_month = Some ''March'', q_search = Some ''_'', q_page = None, q_perPage = None\<rparr>) =
     Status200
       \<lparr>transactions =
          [ex_row 1 ''Blue x shirt'' 5000 ''A'' True (ex_date 2022 3 5),
           ex_row 2 ''Box'' 15000 ''B'' False (ex_date 2023 3 20)],
        total = 2, page = 1, perPage = 2, totalPages = Fin 1\<rparr> \<and>
   \<not> contains_ci ''_'' (title (ex_row 2 ''Box'' 15000 ''B'' False (ex_date 2023 3 20))) \<and>
   \<not> contains_ci ''_'' (description (ex_row 2 ''Box'' 15000 ''B'' False (ex_date 2023 3 20))) \<and>
   \<not> contains_ci ''_''
        (cast_char (price (ex_row 2 ''Box'' 15000 ''B'' False (ex_date 2023 3 20))))"
  by code_simp

lemma list_where_like:
  assumes "trim s \<noteq> []"
  shows "list_where (int k + 1) s rs =
    filter (\<lambda>r. like (''%'' @ s @ ''%'') (title r) \<or> like (''%'' @ s @ ''%'') (description r) \<or>
                like (''%'' @ s @ ''%'') (cast_char (price r)))
      (filter (\<lambda>r. dt_month (date_of_sale r) = k + 1) rs)"
  using assms by (simp add: list_where_def where_month_nat search_clause_def searchParam_def)

text \<open>
  Claim C8, amended. For the month with ordinal \<open>k + 1\<close>, on a store that answers, and a
  search string \<open>s\<close> that is not empty after trimming: the records kept are exactly the
  records of the month whose title, description or price text matches the \<open>LIKE\<close>
  pattern \<open>%s%\<close> (any of the three suffices); when \<open>s\<close> holds no \<open>%\<close>, \<open>_\<close> or
  backslash, these are exactly the records of the month whose title, description or
  price text contains \<open>s\<close> as a substring up to the case of letters. Without a page
  size the listing returns them all; in every successful response \<open>total\<close> is their
  number and the page is drawn from them.
\<close>

theorem search_keeps_substring_matches:
  assumes "k < 12" and "q_month q = Some (months ! k)" and "reachable d"
    and "q_search q = Some s" and "trim s \<noteq> []"
    and "in_month = filter (\<lambda>r. dt_month (date_of_sale r) = k + 1) (rows d)"
    and "kept =
      filter (\<lambda>r. like (''%'' @ s @ ''%'') (title r) \<or> like (''%'' @ s @ ''%'') (description r) \<or>
                  like (''%'' @ s @ ''%'') (cast_char (price r))) in_month"
  shows "(q_perPage q = None \<longrightarrow>
            (\<exists>b es. list_transactions d q = (Status200 b, es) \<and> transactions b = kept)) \<and>
         (\<forall>b es. list_transactions d q = (Status200 b, es) \<longrightarrow>
            total b = length kept \<and> set (transactions b) \<subseteq> set kept) \<and>
         ((\<forall>c \<in> set s. \<not> is_meta c) \<longrightarrow>
            kept =
              filter (\<lambda>r. contains_ci s (title r) \<or> contains_ci s (description r) \<or>
                          contains_ci s (cast_char (price r))) in_month)"
proof -
  have valid: "\<not> invalid_month (q_month q)" and num: "monthNum (q_month q) = int k + 1"
    using assms by (simp_all add: valid_month_nth monthNum_nth)
  have so: "search_of q = s"
    using assms(4) by (simp add: search_of_def)
  have w: "list_where (monthNum (q_month q)) (search_of q) (rows d) = kept"
    unfolding num so assms(6,7) by (rule list_where_like [OF assms(5)])
  have unpaged: "q_perPage q = None \<longrightarrow>
      (\<exists>b es. list_transactions d q = (Status200 b, es) \<and> transactions b = kept)"
  proof
    assume "q_perPage q = None"
    with valid assms(3) w
    show "\<exists>b es. list_transactions d q = (Status200 b, es) \<and> transactions b = kept"
      by (simp add: list_transactions_unpaged)
  qed
  have every: "\<forall>b es. list_transactions d q = (Status200 b, es) \<longrightarrow>
      total b = length kept \<and> set (transactions b) \<subseteq> set kept"
  proof (intro allI impI)
    fix b es
    assume ok: "list_transactions d q = (Status200 b, es)"
    have sub: "set (transactions b) \<subseteq> set kept"
      using list_transactions_subset [OF ok] w by simp
    have "total b = length kept"
      using list_transactions_total [OF ok] w by simp
    with sub show "total b = length kept \<and> set (transactions b) \<subseteq> set kept" by simp
  qed
  have plain: "(\<forall>c \<in> set s. \<not> is_meta c) \<longrightarrow>
      kept =
        filter (\<lambda>r. contains_ci s (title r) \<or> contains_ci s (description r) \<or>
                    contains_ci s (cast_char (price r))) in_month"
  proof
    assume m: "\<forall>c \<in> set s. \<not> is_meta c"
    have "list_where (int k + 1) s (rows d) = kept"
      unfolding assms(6,7) by (rule list_where_like [OF assms(5)])
    moreover have "list_where (int k + 1) s (rows d) =
        filter (\<lambda>r. contains_ci s (title r) \<or> contains_ci s (description r) \<or>
                    contains_ci s (cast_char (price r))) in_month"
      unfolding assms(6) by (rule list_where_contains [OF assms(5) m])
    ultimately show "kept =
        filter (\<lambda>r. contains_ci s (title r) \<or> contains_ci s (description r) \<or>
                    contains_ci s (cast_char (price r))) in_month"
      by simp
  qed
  from unpaged every plain show ?thesis by (intro conjI)
qed

theorem search_keeps_substring_matches_witness:
  "(2::nat) < 12 \<and> months ! 2 = ''March'' \<and> reachable ex_db \<and>
   trim ''150.0'' \<noteq> [] \<and> filter is_meta ''150.0'' = [] \<and>
   cast_char (price (ex_row 2 ''Box'' 15000 ''B'' False (ex_date 2023 3 20))) = ''150.00'' \<and>
   (\<exists>b es. list_transactions ex_db
        \<lparr>q_month = Some (months ! 2), q_search = Some ''150.0'', q_page = None,
         q_perPage = None\<rparr> = (Status200 b, es) \<and>
      transactions b = [ex_row 2 ''Box'' 15000 ''B'' False (ex_date 2023 3 20)]) \<and>
   trim ''BOX'' \<noteq> [] \<and> filter is_meta ''BOX'' = [] \<and>
   (\<exists>b es. list_transactions ex_db
        \<lparr>q_month = Some (months ! 2), q_search = Some ''BOX'', q_page = None,
         q_perPage = None\<rparr> = (Status200 b, es) \<and>
      transactions b = [ex_row 2 ''Box'' 15000 ''B'' False (ex_date 2023 3 20)]) \<and>
   trim ''l_e'' \<noteq> [] \<and> filter is_meta ''l_e'' = ''_'' \<and>
   (\<exists>b es. list_transactions ex_db
        \<lparr>q_month = Some (months ! 2), q_search = Some ''l_e'', q_page = None,
         q_perPage = None\<rparr> = (Status200 b, es) \<and>
      transactions b = [ex_row 1 ''Blue x shirt'' 5000 ''A'' True (ex_date 2022 3 5)])"
proof -
  let ?q1 = "\<lparr>q_month = Some (months ! 2), q_search = Some ''150.0'', q_page = None,
    q_perPage = None\<rparr>"
  let ?q2 = "\<lparr>q_month = Some (months ! 2), q_search = Some ''BOX'', q_page = None,
    q_perPage = None\<rparr>"
  let ?q3 = "\<lparr>q_month = Some (months ! 2), q_search = Some ''l_e'', q_page = None,
    q_perPage = None\<rparr>"
  have h: "(2::nat) < 12" "reachable ex_db" by (simp_all add: ex_db_def)
  have mo: "filter (\<lambda>r. dt_month (date_of_sale r) = 2 + 1) (rows ex_db) =
      [ex_row 1 ''Blue x shirt'' 5000 ''A'' True (ex_date 2022 3 5),
       ex_row 2 ''Box'' 15000 ''B'' False (ex_date 2023 3 20)]"
    by (simp add: ex_db_def ex_rows_def ex_row_def ex_date_def)
  have t1: "trim ''150.0'' \<noteq> []" and t2: "trim ''BOX'' \<noteq> []" and t3: "trim ''l_e'' \<noteq> []"
    by code_simp+
  have f1: "filter is_meta ''150.0'' = []" and f2: "filter is_meta ''BOX'' = []"
    and f3: "filter is_meta ''l_e'' = ''_''"
    by (simp_all add: is_meta_def)
  have m1: "\<forall>c \<in> set ''150.0''. \<not> is_meta c" and m2: "\<forall>c \<in> set ''BOX''. \<not> is_meta c"
    by (simp_all add: is_meta_def)
  have c: "cast_char (price (ex_row 2 ''Box'' 15000 ''B'' False (ex_date 2023 3 20))) = ''150.00''"
    by code_simp
  have e1: "filter (\<lambda>r. contains_ci ''150.0'' (title r) \<or> contains_ci ''150.0'' (description r) \<or>
                  contains_ci ''150.0'' (cast_char (price r)))
        [ex_row 1 ''Blue x shirt'' 5000 ''A'' True (ex_date 2022 3 5),
         ex_row 2 ''Box'' 15000 ''B'' False (ex_date 2023 3 20)] =
      [ex_row 2 ''Box'' 15000 ''B'' False (ex_date 2023 3 20)]"
    by code_simp
  have e2: "filter (\<lambda>r. contains_ci ''BOX'' (title r) \<or> contains_ci ''BOX'' (description r) \<or>
                  contains_ci ''BOX'' (cast_char (price r)))
        [ex_row 1 ''Blue x shirt'' 5000 ''A'' True (ex_date 2022 3 5),
         ex_row 2 ''Box'' 15000 ''B'' False (ex_date 2023 3 20)] =
      [ex_row 2 ''Box'' 15000 ''B'' False (ex_date 2023 3 20)]"
    by code_simp
  have e3: "filter (\<lambda>r. like (''%'' @ ''l_e'' @ ''%'') (title r) \<or>
                  like (''%'' @ ''l_e'' @ ''%'') (description r) \<or>
                  like (''%'' @ ''l_e'' @ ''%'') (cast_char (price r)))
        [ex_row 1 ''Blue x shirt'' 5000 ''A'' True (ex_date 2022 3 5),
         ex_row 2 ''Box'' 15000 ''B'' False (ex_date 2023 3 20)] =
      [ex_row 1 ''Blue x shirt'' 5000 ''A'' True (ex_date 2022 3 5)]"
    by code_simp
  have qm: "q_month ?q1 = Some (months ! 2)" "q_month ?q2 = Some (months ! 2)"
    "q_month ?q3 = Some (months ! 2)" by simp_all
  have qs: "q_search ?q1 = Some ''150.0''" "q_search ?q2 = Some ''BOX''"
    "q_search ?q3 = Some ''l_e''" by simp_all
  have qp: "q_perPage ?q1 = None" "q_perPage ?q2 = None" "q_perPage ?q3 = None" by simp_all
  note a1 = search_keeps_substring_matches [OF h(1) qm(1) h(2) qs(1) t1 refl refl]
  note a2 = search_keeps_substring_matches [OF h(1) qm(2) h(2) qs(2) t2 refl refl]
  note a3 = search_keeps_substring_matches [OF h(1) qm(3) h(2) qs(3) t3 refl refl]
  note k1 = a1 [THEN conjunct2, THEN conjunct2, THEN mp, OF m1]
  note k2 = a2 [THEN conjunct2, THEN conjunct2, THEN mp, OF m2]
  have r1: "\<exists>b es. list_transactions ex_db ?q1 = (Status200 b, es) \<and>
      transactions b = [ex_row 2 ''Box'' 15000 ''B'' False (ex_date 2023 3 20)]"
    using a1 [THEN conjunct1, THEN mp, OF qp(1)] unfolding k1 unfolding mo e1 .
  have r2: "\<exists>b es. list_transactions ex_db ?q2 = (Status200 b, es) \<and>
      transactions b = [ex_row 2 ''Box'' 15000 ''B'' False (ex_date 2023 3 20)]"
    using a2 [THEN conjunct1, THEN mp, OF qp(2)] unfolding k2 unfolding mo e2 .
  have r3: "\<exists>b es. list_transactions ex_db ?q3 = (Status200 b, es) \<and>
      transactions b = [ex_row 1 ''Blue x shirt'' 5000 ''A'' True (ex_date 2022 3 5)]"
    using a3 [THEN conjunct1, THEN mp, OF qp(3)] unfolding mo e3 .
  from h march_is_third t1 f1 c r1 t2 f2 r2 t3 f3 r3 show ?thesis by (intro conjI)
qed



section \<open>The combined handler\<close>

lemma axios_get_mirror:
  assumes "remote url = http_of wrap r"
  shows "axios_get remote url = (case r of Status200 x \<Rightarrow> Some (wrap x) | _ \<Rightarrow> None)"
  using assms by (cases r) (simp_all add: axios_get_def http_of_def)

lemma axios_get_ok:
  assumes "remote url = HttpResponse st x" and "200 \<le> st" and "st < 300"
  shows "axios_get remote url = Some x"
  using assms by (simp add: axios_get_def)

lemma axios_get_failed:
  assumes "remote url = NetworkError \<or>
    (\<exists>st x. remote url = HttpResponse st x \<and> (st < 200 \<or> 300 \<le> st))"
  shows "axios_get remote url = None"
  using assms by (auto simp: axios_get_def)

lemma combined_valid:
  assumes "k < 12" and "m = months ! k"
  shows "combined remote (Some m) =
    (case (axios_get remote (api_url ''statistics'' m), axios_get remote (api_url ''barchart'' m),
           axios_get remote (api_url ''piechart'' m)) of
       (Some s, Some b, Some p) \<Rightarrow>
         Status200 \<lparr>cb_statistics = s, cb_barchart = b, cb_piechart = p\<rparr>
     | _ \<Rightarrow> Status500 ''Error fetching combined data'',
     [Get (api_url ''statistics'' m), Get (api_url ''barchart'' m), Get (api_url ''piechart'' m)])"
proof -
  have valid: "\<not> invalid_month (Some m)"
    using assms by (simp add: valid_month_nth)
  then show ?thesis
    by (simp add: combined_def Let_def split: option.splits)
qed

text \<open>
  Claim C1, as stated, fails: the handler does not compose the three operations in
  process, it sends three HTTP requests to a fixed deployed server. When that server
  cannot be reached the handler answers 500, whatever the local store holds, while
  statistics, bar chart and pie chart on the local store give the three results of the
  specification's example.
\<close>

theorem combined_remote_counterexample:
  "combined (\<lambda>u. NetworkError) (Some ''March'') =
     (Status500 ''Error fetching combined data'',
      [Get ''https://roxiler-backend-kpxn.onrender.com/api/statistics?month=March'',
       Get ''https://roxiler-backend-kpxn.onrender.com/api/barchart?month=March'',
       Get ''https://roxiler-backend-kpxn.onrender.com/api/piechart?month=March'']) \<and>
   combined_spec ex_db (Some ''March'') =
     Status200
       \<lparr>cb_statistics = StatsData \<lparr>totalSale = 50, soldItems = 1, notSoldItems = 1\<rparr>,
        cb_barchart = ChartData [(''0-100'', 1), (''101-200'', 1)],
        cb_piechart = ChartData [(''A'', 1), (''B'', 1)]\<rparr>"
  by code_simp

text \<open>
  Claim C1, amended. For a valid month \<open>m\<close> and any behaviour \<open>remote\<close> of the network
  and the deployed server, the combined handler performs three HTTP GET requests, to
  the statistics, bar chart and pie chart URLs of the deployed server for \<open>m\<close>. When
  all three are answered with a status from 200 to 299, the response is 200 with the
  three bodies received under the envelope \<open>{statistics, barchart, piechart}\<close>; when
  any of the three fails (no answer, or a status outside 200 to 299), the response is
  500. When the deployed server answers each request as this program's handler does on
  the store \<open>d\<close>, the response equals the pointwise combination of statistics, bar
  chart and pie chart on \<open>d\<close>.
\<close>

theorem combined_mirrors_remote:
  assumes "k < 12" and "m = months ! k"
    and "us = api_url ''statistics'' m" and "ub = api_url ''barchart'' m"
    and "up = api_url ''piechart'' m"
  shows "snd (combined remote (Some m)) = [Get us, Get ub, Get up] \<and>
    (\<forall>s1 x s2 y s3 z.
        remote us = HttpResponse s1 x \<and> 200 \<le> s1 \<and> s1 < 300 \<and>
        remote ub = HttpResponse s2 y \<and> 200 \<le> s2 \<and> s2 < 300 \<and>
        remote up = HttpResponse s3 z \<and> 200 \<le> s3 \<and> s3 < 300 \<longrightarrow>
        fst (combined remote (Some m)) =
          Status200 \<lparr>cb_statistics = x, cb_barchart = y, cb_piechart = z\<rparr>) \<and>
    ((\<exists>u \<in> {us, ub, up}. remote u = NetworkError \<or>
          (\<exists>st x. remote u = HttpResponse st x \<and> (st < 200 \<or> 300 \<le> st))) \<longrightarrow>
        fst (combined remote (Some m)) = Status500 ''Error fetching combined data'') \<and>
    (remote us = http_of StatsData (fst (statistics d (Some m))) \<and>
     remote ub = http_of ChartData (fst (barchart d (Some m))) \<and>
     remote up = http_of ChartData (fst (piechart d (Some m))) \<longrightarrow>
        fst (combined remote (Some m)) = combined_spec d (Some m))"
proof -
  note c = combined_valid [OF assms(1,2), of remote, folded assms(3-5)]
  have valid: "\<not> invalid_month (Some m)"
    using assms(1,2) by (simp add: valid_month_nth)
  have gets: "snd (combined remote (Some m)) = [Get us, Get ub, Get up]"
    unfolding c by simp
  have ok: "\<forall>s1 x s2 y s3 z.
        remote us = HttpResponse s1 x \<and> 200 \<le> s1 \<and> s1 < 300 \<and>
        remote ub = HttpResponse s2 y \<and> 200 \<le> s2 \<and> s2 < 300 \<and>
        remote up = HttpResponse s3 z \<and> 200 \<le> s3 \<and> s3 < 300 \<longrightarrow>
        fst (combined remote (Some m)) =
          Status200 \<lparr>cb_statistics = x, cb_barchart = y, cb_piechart = z\<rparr>"
    unfolding c by (simp add: axios_get_def)
  have failed: "(\<exists>u \<in> {us, ub, up}. remote u = NetworkError \<or>
          (\<exists>st x. remote u = HttpResponse st x \<and> (st < 200 \<or> 300 \<le> st))) \<longrightarrow>
        fst (combined remote (Some m)) = Status500 ''Error fetching combined data''"
  proof
    assume "\<exists>u \<in> {us, ub, up}. remote u = NetworkError \<or>
          (\<exists>st x. remote u = HttpResponse st x \<and> (st < 200 \<or> 300 \<le> st))"
    then obtain u where u: "u \<in> {us, ub, up}" and f: "remote u = NetworkError \<or>
          (\<exists>st x. remote u = HttpResponse st x \<and> (st < 200 \<or> 300 \<le> st))"
      by (rule bexE)
    from f have n: "axios_get remote u = None" by (rule axios_get_failed)
    from u have "axios_get remote us = None \<or> axios_get remote ub = None \<or>
        axios_get remote up = None"
      using n by auto
    then show "fst (combined remote (Some m)) = Status500 ''Error fetching combined data''"
      unfolding c by (auto split: option.splits)
  qed
  have mirror: "remote us = http_of StatsData (fst (statistics d (Some m))) \<and>
     remote ub = http_of ChartData (fst (barchart d (Some m))) \<and>
     remote up = http_of ChartData (fst (piechart d (Some m))) \<longrightarrow>
        fst (combined remote (Some m)) = combined_spec d (Some m)"
  proof
    assume h: "remote us = http_of StatsData (fst (statistics d (Some m))) \<and>
     remote ub = http_of ChartData (fst (barchart d (Some m))) \<and>
     remote up = http_of ChartData (fst (piechart d (Some m)))"
    have s: "axios_get remote us =
        (case fst (statistics d (Some m)) of Status200 x \<Rightarrow> Some (StatsData x) | _ \<Rightarrow> None)"
      using h [THEN conjunct1] by (rule axios_get_mirror [where remote = remote])
    have b: "axios_get remote ub =
        (case fst (barchart d (Some m)) of Status200 x \<Rightarrow> Some (ChartData x) | _ \<Rightarrow> None)"
      using h [THEN conjunct2, THEN conjunct1] by (rule axios_get_mirror [where remote = remote])
    have p: "axios_get remote up =
        (case fst (piechart d (Some m)) of Status200 x \<Rightarrow> Some (ChartData x) | _ \<Rightarrow> None)"
      using h [THEN conjunct2, THEN conjunct2] by (rule axios_get_mirror [where remote = remote])
    show "fst (combined remote (Some m)) = combined_spec d (Some m)"
      unfolding c using valid
      by (simp add: combined_spec_def s b p split: response.splits)
  qed
  from gets ok failed mirror show ?thesis by (intro conjI)
qed

theorem combined_mirrors_remote_witness:
  "(2::nat) < 12 \<and> ''March'' = months ! 2 \<and>
   combined (ex_remote ex_db) (Some ''March'') =
     (Status200
       \<lparr>cb_statistics = StatsData \<lparr>totalSale = 50, soldItems = 1, notSoldItems = 1\<rparr>,
        cb_barchart = ChartData [(''0-100'', 1), (''101-200'', 1)],
        cb_piechart = ChartData [(''A'', 1), (''B'', 1)]\<rparr>,
      [Get (api_url ''statistics'' ''March''), Get (api_url ''barchart'' ''March''),
       Get (api_url ''piechart'' ''March'')]) \<and>
   fst (combined (ex_remote ex_db) (Some ''March'')) = combined_spec ex_db (Some ''March'') \<and>
   ((ex_remote ex_db)(api_url ''barchart'' ''March'' := HttpResponse 404 (ErrorData ''Not found'')))
      (api_url ''statistics'' ''March'') =
     HttpResponse 200 (StatsData \<lparr>totalSale = 50, soldItems = 1, notSoldItems = 1\<rparr>) \<and>
   combined
     ((ex_remote ex_db)(api_url ''barchart'' ''March'' := HttpResponse 404 (ErrorData ''Not found'')))
     (Some ''March'') =
     (Status500 ''Error fetching combined data'',
      [Get (api_url ''statistics'' ''March''), Get (api_url ''barchart'' ''March''),
       Get (api_url ''piechart'' ''March'')]) \<and>
   combined ((ex_remote ex_db)(api_url ''piechart'' ''March'' := NetworkError)) (Some ''March'') =
     (Status500 ''Error fetching combined data'',
      [Get (api_url ''statistics'' ''March''), Get (api_url ''barchart'' ''March''),
       Get (api_url ''piechart'' ''March'')])"
proof -
  let ?us = "api_url ''statistics'' ''March''"
  let ?ub = "api_url ''barchart'' ''March''"
  let ?up = "api_url ''piechart'' ''March''"
  let ?r2 = "(ex_remote ex_db)(?ub := HttpResponse 404 (ErrorData ''Not found''))"
  let ?r3 = "(ex_remote ex_db)(?up := NetworkError)"
  have h: "(2::nat) < 12" "''March'' = months ! 2" by (simp_all add: months_def)
  have r1: "ex_remote ex_db ?us =
      HttpResponse 200 (StatsData \<lparr>totalSale = 50, soldItems = 1, notSoldItems = 1\<rparr>)"
    by code_simp
  have r2: "ex_remote ex_db ?ub = HttpResponse 200 (ChartData [(''0-100'', 1), (''101-200'', 1)])"
    by code_simp
  have r3: "ex_remote ex_db ?up = HttpResponse 200 (ChartData [(''A'', 1), (''B'', 1)])"
    by code_simp
  have m1: "ex_remote ex_db ?us = http_of StatsData (fst (statistics ex_db (Some ''March'')))"
    by code_simp
  have m2: "ex_remote ex_db ?ub = http_of ChartData (fst (barchart ex_db (Some ''March'')))"
    by code_simp
  have m3: "ex_remote ex_db ?up = http_of ChartData (fst (piechart ex_db (Some ''March'')))"
    by code_simp
  have ne: "?us \<noteq> ?ub" by code_simp
  note a = combined_mirrors_remote [OF h refl refl refl, of "ex_remote ex_db" ex_db]
  note b = combined_mirrors_remote [OF h refl refl refl, of ?r2 ex_db]
  note c = combined_mirrors_remote [OF h refl refl refl, of ?r3 ex_db]
  have a1: "snd (combined (ex_remote ex_db) (Some ''March'')) = [Get ?us, Get ?ub, Get ?up]"
    using a by (rule conjunct1)
  have a2: "fst (combined (ex_remote ex_db) (Some ''March'')) =
      Status200
       \<lparr>cb_statistics = StatsData \<lparr>totalSale = 50, soldItems = 1, notSoldItems = 1\<rparr>,
        cb_barchart = ChartData [(''0-100'', 1), (''101-200'', 1)],
        cb_piechart = ChartData [(''A'', 1), (''B'', 1)]\<rparr>"
    using a [THEN conjunct2, THEN conjunct1] r1 r2 r3 by simp
  have a3: "fst (combined (ex_remote ex_db) (Some ''March'')) = combined_spec ex_db (Some ''March'')"
    using a [THEN conjunct2, THEN conjunct2, THEN conjunct2] m1 m2 m3 by simp
  have a4: "combined (ex_remote ex_db) (Some ''March'') =
     (Status200
       \<lparr>cb_statistics = StatsData \<lparr>totalSale = 50, soldItems = 1, notSoldItems = 1\<rparr>,
        cb_barchart = ChartData [(''0-100'', 1), (''101-200'', 1)],
        cb_piechart = ChartData [(''A'', 1), (''B'', 1)]\<rparr>,
      [Get ?us, Get ?ub, Get ?up])"
    using a1 a2 by (simp add: prod_eq_iff)
  have b0: "?r2 ?us =
      HttpResponse 200 (StatsData \<lparr>totalSale = 50, soldItems = 1, notSoldItems = 1\<rparr>)"
    using ne r1 by simp
  have b1: "snd (combined ?r2 (Some ''March'')) = [Get ?us, Get ?ub, Get ?up]"
    using b by (rule conjunct1)
  have "?r2 ?ub = HttpResponse 404 (ErrorData ''Not found'')" by simp
  then have "\<exists>u \<in> {?us, ?ub, ?up}. ?r2 u = NetworkError \<or>
      (\<exists>st x. ?r2 u = HttpResponse st x \<and> (st < 200 \<or> 300 \<le> st))"
    by simp
  with b have b2: "fst (combined ?r2 (Some ''March'')) = Status500 ''Error fetching combined data''"
    by (rule conjunct2 [THEN conjunct2, THEN conjunct1, THEN mp])
  have b3: "combined ?r2 (Some ''March'') =
      (Status500 ''Error fetching combined data'', [Get ?us, Get ?ub, Get ?up])"
    using b1 b2 by (simp add: prod_eq_iff)
  have c1: "snd (combined ?r3 (Some ''March'')) = [Get ?us, Get ?ub, Get ?up]"
    using c by (rule conjunct1)
  have "?r3 ?up = NetworkError" by simp
  then have "\<exists>u \<in> {?us, ?ub, ?up}. ?r3 u = NetworkError \<or>
      (\<exists>st x. ?r3 u = HttpResponse st x \<and> (st < 200 \<or> 300 \<le> st))"
    by simp
  with c have c2: "fst (combined ?r3 (Some ''March'')) = Status500 ''Error fetching combined data''"
    by (rule conjunct2 [THEN conjunct2, THEN conjunct1, THEN mp])
  have c3: "combined ?r3 (Some ''March'') =
      (Status500 ''Error fetching combined data'', [Get ?us, Get ?ub, Get ?up])"
    using c1 c2 by (simp add: prod_eq_iff)
  from h a4 a3 b0 b3 c3 show ?thesis by (intro conjI)
qed

section \<open>Startup bootstrap: failures\<close>

lemma insert_all_threw:
  "insert_all rs its = (rs', True) \<Longrightarrow>
     \<exists>pre it rest new. its = pre @ it # rest \<and> map to_row pre = map Some new \<and>
       rs' = rs @ new \<and> insert_row rs' it = None"
proof (induction its arbitrary: rs)
  case Nil
  then show ?case by simp
next
  case (Cons it its)
  show ?case
  proof (cases "insert_row rs it")
    case None
    with Cons.prems have "rs' = rs" by simp
    with None have "it # its = [] @ it # its \<and> map to_row [] = map Some [] \<and>
        rs' = rs @ [] \<and> insert_row rs' it = None"
      by simp
    then show ?thesis by blast
  next
    case (Some rs2)
    then obtain r where r: "to_row it = Some r" "rs2 = rs @ [r]"
      by (auto simp: insert_row_def split: option.splits if_splits)
    from Some Cons.prems have "insert_all rs2 its = (rs', True)" by simp
    from Cons.IH [OF this] obtain pre it' rest new where
      ih: "its = pre @ it' # rest" "map to_row pre = map Some new" "rs' = rs2 @ new"
        "insert_row rs' it' = None"
      by blast
    with r have "it # its = (it # pre) @ it' # rest \<and>
        map to_row (it # pre) = map Some (r # new) \<and> rs' = rs @ (r # new) \<and>
        insert_row rs' it' = None"
      by simp
    then show ?thesis by blast
  qed
qed

text \<open>
  Claim C4, as stated, fails where an insert fails after another has succeeded: the
  rows are inserted one statement at a time, with no transaction around the loop. When
  the dataset holds the same id twice, the second insert throws and the store keeps
  the first row.
\<close>

theorem bootstrap_partial_counterexample:
  "snd (insert_all [] [ex_item 1, ex_item 1]) \<and>
   bootstrap \<lparr>reachable = True, rows = []\<rparr> (Some [ex_item 1, ex_item 1]) =
     \<lparr>store = \<lparr>reachable = True, rows = [ex_row 1 ''Pen'' 1000 ''A'' True (ex_date 2022 3 5)]\<rparr>,
      log = [Connected, TableReady, NoDataSeeding, SeedingError],
      threw = False, listening = True\<rparr>"
  by code_simp

text \<open>
  Claim C4, amended. Starting from a reachable, empty store: when the fetch fails, the
  failure is logged, nothing is thrown out of the bootstrap, the server listens, and
  the store is left empty; when an insert fails, the failure is logged, nothing is
  thrown, the server listens, and the store holds the rows of the items that precede
  the failing one.
\<close>

theorem bootstrap_failure:
  assumes "reachable d" and "rows d = []"
  shows "(fetched = None \<longrightarrow>
            bootstrap d fetched =
              \<lparr>store = d, log = [Connected, TableReady, NoDataSeeding, SeedingError],
               threw = False, listening = True\<rparr>) \<and>
         (\<forall>seed. fetched = Some seed \<and> snd (insert_all [] seed) \<longrightarrow>
            (\<exists>pre it rest new. seed = pre @ it # rest \<and> map to_row pre = map Some new \<and>
               insert_row new it = None \<and>
               bootstrap d fetched =
                 \<lparr>store = d\<lparr>rows := new\<rparr>,
                  log = [Connected, TableReady, NoDataSeeding, SeedingError],
                  threw = False, listening = True\<rparr>))"
proof (intro conjI allI impI)
  assume "fetched = None"
  with assms show "bootstrap d fetched =
      \<lparr>store = d, log = [Connected, TableReady, NoDataSeeding, SeedingError],
       threw = False, listening = True\<rparr>"
    by (simp add: bootstrap_def)
next
  fix seed
  assume h: "fetched = Some seed \<and> snd (insert_all [] seed)"
  then obtain rs' where ia: "insert_all [] seed = (rs', True)"
    by (cases "insert_all [] seed") auto
  from insert_all_threw [OF ia] obtain pre it rest new where
    p: "seed = pre @ it # rest" "map to_row pre = map Some new" "rs' = [] @ new"
      "insert_row rs' it = None"
    by blast
  have "bootstrap d fetched =
      \<lparr>store = d\<lparr>rows := rs'\<rparr>, log = [Connected, TableReady, NoDataSeeding, SeedingError],
       threw = False, listening = True\<rparr>"
    using assms h ia by (simp add: bootstrap_def)
  with p have "seed = pre @ it # rest \<and> map to_row pre = map Some new \<and>
      insert_row new it = None \<and>
      bootstrap d fetched =
        \<lparr>store = d\<lparr>rows := new\<rparr>, log = [Connected, TableReady, NoDataSeeding, SeedingError],
         threw = False, listening = True\<rparr>"
    by simp
  then show "\<exists>pre it rest new. seed = pre @ it # rest \<and> map to_row pre = map Some new \<and>
      insert_row new it = None \<and>
      bootstrap d fetched =
        \<lparr>store = d\<lparr>rows := new\<rparr>, log = [Connected, TableReady, NoDataSeeding, SeedingError],
         threw = False, listening = True\<rparr>"
    by blast
qed


theorem bootstrap_failure_witness:
  "reachable \<lparr>reachable = True, rows = []\<rparr> \<and> rows \<lparr>reachable = True, rows = []\<rparr> = [] \<and>
   snd (insert_all [] [ex_item 1, ex_item 2, ex_item 1, ex_item 3]) \<and>
   bootstrap \<lparr>reachable = True, rows = []\<rparr> None =
     \<lparr>store = \<lparr>reachable = True, rows = []\<rparr>,
      log = [Connected, TableReady, NoDataSeeding, SeedingError],
      threw = False, listening = True\<rparr> \<and>
   (\<exists>pre it rest new. [ex_item 1, ex_item 2, ex_item 1, ex_item 3] = pre @ it # rest \<and>
      map to_row pre = map Some new \<and> insert_row new it = None \<and>
      bootstrap \<lparr>reachable = True, rows = []\<rparr>
          (Some [ex_item 1, ex_item 2, ex_item 1, ex_item 3]) =
        \<lparr>store = \<lparr>reachable = True, rows = []\<rparr>\<lparr>rows := new\<rparr>,
         log = [Connected, TableReady, NoDataSeeding, SeedingError],
         threw = False, listening = True\<rparr>) \<and>
   rows (store (bootstrap \<lparr>reachable = True, rows = []\<rparr>
          (Some [ex_item 1, ex_item 2, ex_item 1, ex_item 3]))) =
     [ex_row 1 ''Pen'' 1000 ''A'' True (ex_date 2022 3 5),
      ex_row 2 ''Pen'' 1000 ''A'' True (ex_date 2022 3 5)]"
proof -
  let ?d = "\<lparr>reachable = True, rows = []\<rparr>"
  let ?seed = "[ex_item 1, ex_item 2, ex_item 1, ex_item 3]"
  have h: "reachable ?d" "rows ?d = []" by simp_all
  have t: "snd (insert_all [] ?seed)" by code_simp
  have v: "rows (store (bootstrap ?d (Some ?seed))) =
     [ex_row 1 ''Pen'' 1000 ''A'' True (ex_date 2022 3 5),
      ex_row 2 ''Pen'' 1000 ''A'' True (ex_date 2022 3 5)]"
    by code_simp
  note a = bootstrap_failure [OF h, of None, THEN conjunct1, rule_format, OF refl]
  note b = bootstrap_failure [OF h, of "Some ?seed", THEN conjunct2, rule_format, of ?seed,
      OF conjI [OF refl t]]
  from h t a b v show ?thesis by (intro conjI)
qed

end
